theory Spec2Isabelle
  imports Complex_Main "HOL-Library.Char_ord" "HOL-Library.List_Lexorder"
begin

section \<open>Column names: making duplicates unique (Table.__init__, lines 109-132)\<close>

text \<open>
  Column names are Python strings, compared as Python compares them: lexicographically,
  character by character (the order of \<^typ>\<open>char list\<close> from the library theories
  imported above).

  \<^verbatim>\<open>"%s-%s" % (key, suffix)\<close> writes the integer \<open>suffix\<close> in decimal, without leading
  zeros.
\<close>

definition digit_char :: "nat \<Rightarrow> char" where
  "digit_char d = ''0123456789'' ! d"

fun str_of_nat :: "nat \<Rightarrow> string" where
  "str_of_nat n =
     (if n < 10 then [digit_char n] else str_of_nat (n div 10) @ [digit_char (n mod 10)])"

definition key_suffix :: "string \<Rightarrow> nat \<Rightarrow> string" where
  "key_suffix key suffix = key @ ''-'' @ str_of_nat suffix"

text \<open>
  \<^verbatim>\<open>key_dictionary, key_counts = numpy.unique(keys, return_counts=True)\<close>: the distinct
  keys in sorted order, each with the number of times it occurs. The two arrays are only
  ever walked together (\<^verbatim>\<open>zip(key_dictionary, key_counts)\<close>), so the model returns the
  list of pairs.
\<close>

definition unique_counts :: "string list \<Rightarrow> (string \<times> nat) list" where
  "unique_counts ks = map (\<lambda>k. (k, count_list ks k)) (remdups_adj (sort ks))"

text \<open>\<^verbatim>\<open>numpy.flatnonzero(keys == key)\<close>: the positions holding \<open>key\<close>, ascending.\<close>

definition flatnonzero_eq :: "string list \<Rightarrow> string \<Rightarrow> nat list" where
  "flatnonzero_eq ks key = filter (\<lambda>i. ks ! i = key) [0..<length ks]"

text \<open>
  The set \<^verbatim>\<open>reserved_keys\<close> is only tested for membership and added to; it is
  represented by the list of its elements.

  \<^verbatim>\<open>while "%s-%s" % (key, suffix) in reserved_keys: suffix += 1\<close>
  The loop ends because the reserved names are finitely many and distinct suffixes give
  distinct names; the two lemmas before the termination proof say so.
\<close>

lemma str_of_nat_not_Nil: "str_of_nat n \<noteq> []"
  by (induction n rule: str_of_nat.induct) (subst str_of_nat.simps, simp)

lemma digit_char_inj: "a < 10 \<Longrightarrow> b < 10 \<Longrightarrow> digit_char a = digit_char b \<Longrightarrow> a = b"
proof -
  assume a: "a < 10" and b: "b < 10" and e: "digit_char a = digit_char b"
  have d: "distinct ''0123456789''" by simp
  have l: "length ''0123456789'' = 10" by simp
  from e have "''0123456789'' ! a = ''0123456789'' ! b" by (simp only: digit_char_def)
  with d a b l show "a = b" by (metis nth_eq_iff_index_eq)
qed

lemma str_of_nat_inj: "str_of_nat n = str_of_nat m \<Longrightarrow> n = m"
proof (induction n arbitrary: m rule: str_of_nat.induct)
  case (1 n)
  show ?case
  proof (cases "n < 10")
    case small: True
    show ?thesis
    proof (cases "m < 10")
      case True
      with small "1.prems" show ?thesis
        by (simp add: digit_char_inj)
    next
      case False
      then have "str_of_nat m = str_of_nat (m div 10) @ [digit_char (m mod 10)]"
        by (subst str_of_nat.simps) simp
      moreover have "str_of_nat n = [digit_char n]"
        using small by (subst str_of_nat.simps) simp
      ultimately show ?thesis
        using "1.prems" str_of_nat_not_Nil [of "m div 10"] by (cases "str_of_nat (m div 10)") auto
    qed
  next
    case big: False
    then have n: "str_of_nat n = str_of_nat (n div 10) @ [digit_char (n mod 10)]"
      by (subst str_of_nat.simps) simp
    show ?thesis
    proof (cases "m < 10")
      case True
      then have "str_of_nat m = [digit_char m]"
        by (subst str_of_nat.simps) simp
      with n "1.prems" str_of_nat_not_Nil [of "n div 10"] show ?thesis
        by (cases "str_of_nat (n div 10)") auto
    next
      case False
      then have m: "str_of_nat m = str_of_nat (m div 10) @ [digit_char (m mod 10)]"
        by (subst str_of_nat.simps) simp
      from n m "1.prems" have e1: "str_of_nat (n div 10) = str_of_nat (m div 10)"
        and e2: "digit_char (n mod 10) = digit_char (m mod 10)"
        by simp_all
      from "1.IH" [OF big e1] have "n div 10 = m div 10" .
      moreover from e2 have "n mod 10 = m mod 10"
        by (rule digit_char_inj [rotated 2]) simp_all
      ultimately show ?thesis
        by (metis div_mult_mod_eq)
    qed
  qed
qed

lemma key_suffix_inj: "key_suffix key n = key_suffix key m \<Longrightarrow> n = m"
  by (simp add: key_suffix_def str_of_nat_inj)

lemma finite_reserved_suffixes: "finite {m. key_suffix key m \<in> set reserved}"
proof -
  have "inj (key_suffix key)"
    by (rule injI) (rule key_suffix_inj)
  then have "finite (key_suffix key -` set reserved)"
    by (rule finite_vimageI [rotated]) simp
  then show ?thesis
    by (simp add: vimage_def)
qed

function next_suffix :: "string list \<Rightarrow> string \<Rightarrow> nat \<Rightarrow> nat" where
  "next_suffix reserved key suffix =
     (if key_suffix key suffix \<in> set reserved then next_suffix reserved key (suffix + 1)
      else suffix)"
  by pat_completeness auto
termination
proof (relation "measure (\<lambda>(reserved, key, suffix).
                   card {m. suffix \<le> m \<and> key_suffix key m \<in> set reserved})")
  show "wf (measure (\<lambda>(reserved, key, suffix).
                   card {m. suffix \<le> m \<and> key_suffix key m \<in> set reserved}))"
    by simp
next
  fix reserved :: "string list" and key :: string and suffix :: nat
  assume r: "key_suffix key suffix \<in> set reserved"
  let ?A = "{m. suffix + 1 \<le> m \<and> key_suffix key m \<in> set reserved}"
  let ?B = "{m. suffix \<le> m \<and> key_suffix key m \<in> set reserved}"
  have fin: "finite ?B"
    by (rule finite_subset [OF _ finite_reserved_suffixes [of key reserved]]) auto
  have "?A \<subseteq> ?B" by auto
  moreover have "suffix \<in> ?B" "suffix \<notin> ?A" using r by auto
  ultimately have "?A \<subset> ?B" by blast
  with fin have "card ?A < card ?B"
    by (rule psubset_card_mono)
  then show "((reserved, key, suffix + 1), (reserved, key, suffix))
        \<in> measure (\<lambda>(reserved, key, suffix).
                   card {m. suffix \<le> m \<and> key_suffix key m \<in> set reserved})"
    by simp
qed

declare next_suffix.simps [simp del]

text \<open>
  The inner loop over the positions of one duplicated key (lines 124-132). The state is
  the array of names, the reserved names and the running suffix.
  \<^verbatim>\<open>
  for i in numpy.flatnonzero(keys == key):
      if key not in reserved_keys:
          reserved_keys.add(key)
          continue
      while "%s-%s" % (key, suffix) in reserved_keys:
          suffix += 1
      keys[i] = "%s-%s" % (key, suffix)
      reserved_keys.add(keys[i])
  \<close>
\<close>

fun rename_at :: "string \<Rightarrow> nat list \<Rightarrow> string list \<times> string list \<times> nat
    \<Rightarrow> string list \<times> string list \<times> nat" where
  "rename_at key [] st = st"
| "rename_at key (i # is) (ks, reserved, suffix) =
     (if key \<notin> set reserved then rename_at key is (ks, key # reserved, suffix)
      else
        let suffix' = next_suffix reserved key suffix;
            new = key_suffix key suffix'
        in rename_at key is (ks[i := new], new # reserved, suffix'))"

text \<open>
  The outer loop (lines 120-132): every key that occurs more than once, in the sorted
  order of \<^verbatim>\<open>numpy.unique\<close>; the suffix starts again at 1 for each key, and the
  positions are read from the array as it stands when the key's turn comes.
\<close>

fun alter_duplicates :: "(string \<times> nat) list \<Rightarrow> string list \<times> string list
    \<Rightarrow> string list \<times> string list" where
  "alter_duplicates [] st = st"
| "alter_duplicates ((key, count) # rest) (ks, reserved) =
     (if count = 1 then alter_duplicates rest (ks, reserved)
      else
        case rename_at key (flatnonzero_eq ks key) (ks, reserved, 1) of
          (ks', reserved', _) \<Rightarrow> alter_duplicates rest (ks', reserved'))"

text \<open>
  Lines 110-132 as a whole: the names that occur once are reserved first, then the
  duplicates are altered. The result is the array of names the columns are stored under.
\<close>

definition unique_keys :: "string list \<Rightarrow> string list" where
  "unique_keys ks =
     (let kc = unique_counts ks;
          reserved = map fst (filter (\<lambda>(key, count). count = 1) kc)
      in fst (alter_duplicates kc (ks, reserved)))"

section \<open>Arrays, their storage, and Python values\<close>

text \<open>
  Columns are numpy arrays, and numpy arrays share storage: basic slicing returns a view
  of the array it slices, and \<^verbatim>\<open>numpy.ma.array(x)\<close> (whose \<^verbatim>\<open>copy\<close> argument
  defaults to \<^verbatim>\<open>False\<close>) refers to the data of an array \<open>x\<close> rather than copying
  it. The store is therefore explicit: a heap of buffers, addressed by their index, and a
  one-dimensional array is a buffer address with the list of the buffer positions its
  elements occupy (numpy's offset and stride, enumerated). Buffers are never freed.

  The element type \<open>'a\<close> is left open; a masked element is a value together with its mask
  bit. Conversions between element types are not modelled.
\<close>

type_synonym 'a heap = "'a list list"

datatype ndarray = NDArray (buf: nat) (pos: "nat list")

definition elems :: "'a heap \<Rightarrow> ndarray \<Rightarrow> 'a list" where
  "elems h a = map (\<lambda>p. h ! buf a ! p) (pos a)"

definition alloc :: "'a list \<Rightarrow> 'a heap \<Rightarrow> ndarray \<times> 'a heap" where
  "alloc xs h = (NDArray (length h) [0..<length xs], h @ [xs])"

text \<open>
  Every \<^verbatim>\<open>raise\<close> of the source is a \<^verbatim>\<open>ValueError\<close> with its own message; the
  constructors are named after what the message reports and carry what it prints. The
  last four are the exceptions of Python and numpy themselves.
\<close>

datatype error =
    UnsupportedSourceType string
  | NotTwoDimensional
  | DimensionalityError nat string
  | LengthMismatchError nat nat
  | UnsupportedAssignmentError
  | KeyError
  | IndexError
  | TypeError
  | ValueError

text \<open>
  What may stand on the right of an assignment or as the data of a column: a scalar, a
  Python sequence of scalars, an existing one-dimensional array, or an array-like of two or
  more dimensions (\<open>PyNd d xs\<close> has \<open>d + 2\<close> dimensions and the elements \<open>xs\<close>).
\<close>

datatype 'a pyvalue =
    PyScalar 'a
  | PySeq "'a list"
  | PyArray ndarray
  | PyNd nat "'a list"

definition ndim :: "'a pyvalue \<Rightarrow> nat" where
  "ndim v = (case v of PyScalar _ \<Rightarrow> 0 | PySeq _ \<Rightarrow> 1 | PyArray _ \<Rightarrow> 1 | PyNd d _ \<Rightarrow> d + 2)"

text \<open>
  \<^verbatim>\<open>numpy.ma.array(value)\<close>: an array is referred to, anything else is stored in a new
  buffer. Only the number of dimensions of the result is looked at unless it is 1.
\<close>

definition ma_array :: "'a pyvalue \<Rightarrow> 'a heap \<Rightarrow> ndarray \<times> 'a heap" where
  "ma_array v h =
     (case v of
        PyScalar x \<Rightarrow> alloc [x] h
      | PySeq xs \<Rightarrow> alloc xs h
      | PyArray a \<Rightarrow> (a, h)
      | PyNd d xs \<Rightarrow> alloc xs h)"

text \<open>
  What may stand between the brackets of \<^verbatim>\<open>table[...]\<close>: one object, or a tuple of
  objects. A slice has optional start, stop and step. The lists stand for Python lists and
  for numpy arrays of positions or of names.
\<close>

datatype pyatom =
    PyNone
  | PyStr string
  | PyInt int
  | PySlice "int option" "int option" "int option"
  | PyIntList "int list"
  | PyStrList "string list"

datatype pyindex = Single pyatom | PyTuple "pyatom list"

text \<open>\<^verbatim>\<open>index[i]\<close> on a tuple raises when the tuple is too short.\<close>

definition tuple_item :: "pyatom list \<Rightarrow> nat \<Rightarrow> error + pyatom" where
  "tuple_item xs i = (if i < length xs then Inr (xs ! i) else Inl IndexError)"

subsection \<open>Slices and indexing of one array\<close>

text \<open>\<^verbatim>\<open>range(b, e, st)\<close> for a step that is not zero.\<close>

definition py_range :: "int \<Rightarrow> int \<Rightarrow> int \<Rightarrow> int list" where
  "py_range b e st =
     (if 0 < st then map (\<lambda>k. b + int k * st) [0..<nat ((e - b + st - 1) div st)]
      else map (\<lambda>k. b + int k * st) [0..<nat ((b - e - st - 1) div (- st))])"

text \<open>
  The positions a slice selects in a sequence of \<open>len\<close> elements, as
  \<^verbatim>\<open>slice.indices\<close> computes them: a negative bound counts from the end, and a bound
  outside the sequence is clipped to it. A zero step is a \<^verbatim>\<open>ValueError\<close>.
\<close>

definition slice_indices :: "int option \<Rightarrow> int option \<Rightarrow> int option \<Rightarrow> nat \<Rightarrow> error + nat list" where
  "slice_indices start stop step len =
     (let n = int len;
          st = (case step of None \<Rightarrow> 1 | Some s \<Rightarrow> s)
      in if st = 0 then Inl ValueError
         else
           let lower = (if st < 0 then - 1 else 0);
               upper = (if st < 0 then n - 1 else n);
               adjust = (\<lambda>x. if x < 0 then max (x + n) lower else min x upper);
               b = (case start of None \<Rightarrow> (if st < 0 then upper else lower) | Some x \<Rightarrow> adjust x);
               e = (case stop of None \<Rightarrow> (if st < 0 then lower else upper) | Some x \<Rightarrow> adjust x)
           in Inr (map nat (py_range b e st)))"

text \<open>An integer position in a sequence of \<open>len\<close> elements; negative ones count from the end.\<close>

definition position :: "nat \<Rightarrow> int \<Rightarrow> error + nat" where
  "position len i =
     (let j = (if i < 0 then i + int len else i)
      in if 0 \<le> j \<and> j < int len then Inr (nat j) else Inl IndexError)"

fun positions :: "nat \<Rightarrow> int list \<Rightarrow> error + nat list" where
  "positions len [] = Inr []"
| "positions len (i # is) =
     (case position len i of
        Inl e \<Rightarrow> Inl e
      | Inr j \<Rightarrow> (case positions len is of Inl e \<Rightarrow> Inl e | Inr js \<Rightarrow> Inr (j # js)))"

text \<open>
  \<^verbatim>\<open>a[selector]\<close> on a one-dimensional array. A slice gives a view: the same buffer,
  the selected positions. A list of positions gives a copy in a new buffer. An integer
  gives the element, \<^verbatim>\<open>None\<close> adds an axis, and numpy refuses names.
\<close>

definition view :: "ndarray \<Rightarrow> nat list \<Rightarrow> ndarray" where
  "view a js = NDArray (buf a) (map (\<lambda>j. pos a ! j) js)"

definition np_getitem :: "ndarray \<Rightarrow> pyatom \<Rightarrow> 'a heap \<Rightarrow> (error + 'a pyvalue) \<times> 'a heap" where
  "np_getitem a sel h =
     (case sel of
        PySlice start stop step \<Rightarrow>
          (case slice_indices start stop step (length (pos a)) of
             Inl e \<Rightarrow> (Inl e, h)
           | Inr js \<Rightarrow> (Inr (PyArray (view a js)), h))
      | PyIntList is \<Rightarrow>
          (case positions (length (pos a)) is of
             Inl e \<Rightarrow> (Inl e, h)
           | Inr js \<Rightarrow> (case alloc (map (\<lambda>j. elems h a ! j) js) h of (b, h') \<Rightarrow> (Inr (PyArray b), h')))
      | PyInt i \<Rightarrow>
          (case position (length (pos a)) i of
             Inl e \<Rightarrow> (Inl e, h)
           | Inr j \<Rightarrow> (Inr (PyScalar (elems h a ! j)), h))
      | PyNone \<Rightarrow> (Inr (PyNd 0 (elems h a)), h)
      | PyStr s \<Rightarrow> (Inl IndexError, h)
      | PyStrList ns \<Rightarrow>
          (if ns = [] then (case alloc [] h of (b, h') \<Rightarrow> (Inr (PyArray b), h'))
           else (Inl IndexError, h)))"

text \<open>
  \<^verbatim>\<open>a[selector] = value\<close> for an integer or a slice, the two selectors
  \<^verbatim>\<open>__setitem__\<close> lets through. The value is read first, then written to the selected
  positions of the buffer: one value for all of them, or as many values as positions.
  Anything else cannot be broadcast. The array itself, and so its length, stays as it is.
\<close>

fun write_buffer :: "'a list \<Rightarrow> nat list \<Rightarrow> 'a list \<Rightarrow> 'a list" where
  "write_buffer b (p # ps) (v # vs) = write_buffer (b[p := v]) ps vs"
| "write_buffer b _ _ = b"

definition np_setitem :: "ndarray \<Rightarrow> pyatom \<Rightarrow> 'a pyvalue \<Rightarrow> 'a heap \<Rightarrow> (error + unit) \<times> 'a heap" where
  "np_setitem a sel value h =
     (let targets =
            (case sel of
               PyInt i \<Rightarrow> (case position (length (pos a)) i of Inl e \<Rightarrow> Inl e | Inr j \<Rightarrow> Inr [j])
             | PySlice start stop step \<Rightarrow> slice_indices start stop step (length (pos a))
             | _ \<Rightarrow> Inl IndexError)
      in case targets of
           Inl e \<Rightarrow> (Inl e, h)
         | Inr js \<Rightarrow>
             (let ps = map (\<lambda>j. pos a ! j) js;
                  vs = (case value of
                          PyScalar x \<Rightarrow> Some [x]
                        | PySeq xs \<Rightarrow> Some xs
                        | PyArray b \<Rightarrow> Some (elems h b)
                        | PyNd d xs \<Rightarrow> None)
              in case vs of
                   None \<Rightarrow> (Inl ValueError, h)
                 | Some xs \<Rightarrow>
                     if length xs = length ps then
                       (Inr (), h[buf a := write_buffer (h ! buf a) ps xs])
                     else if length xs = 1 then
                       (Inr (), h[buf a := write_buffer (h ! buf a) ps (replicate (length ps) (hd xs))])
                     else (Inl ValueError, h)))"

section \<open>The Table\<close>

text \<open>
  \<^verbatim>\<open>self._columns\<close> is an \<^verbatim>\<open>OrderedDict\<close> from names to arrays: an association
  list in insertion order. \<^verbatim>\<open>self._metadata\<close> is set up empty by the constructor and
  touched by none of the operations below; it is left out.
\<close>

record table =
  columns :: "(string \<times> ndarray) list"

definition empty_table :: table where
  "empty_table = \<lparr>columns = []\<rparr>"

definition keys :: "table \<Rightarrow> string list" where
  "keys t = map fst (columns t)"

definition values_of :: "table \<Rightarrow> ndarray list" where
  "values_of t = map snd (columns t)"

text \<open>
  \<^verbatim>\<open>
  return (
      list(self._columns.values())[0].shape[0] if len(self._columns) else 0,
      len(self._columns),
  )
  \<close>
\<close>

definition shape :: "table \<Rightarrow> nat \<times> nat" where
  "shape t =
     (case columns t of [] \<Rightarrow> 0 | (name, a) # rest \<Rightarrow> length (pos a),
      length (columns t))"

text \<open>
  \<^verbatim>\<open>d[k] = v\<close> on an ordered dictionary: a key that is present keeps its place, a new
  key goes to the end. \<^verbatim>\<open>d[k]\<close> raises \<^verbatim>\<open>KeyError\<close> for a key that is absent, and so
  does \<^verbatim>\<open>del d[k]\<close>.
\<close>

fun odict_set :: "string \<Rightarrow> ndarray \<Rightarrow> (string \<times> ndarray) list \<Rightarrow> (string \<times> ndarray) list" where
  "odict_set k v [] = [(k, v)]"
| "odict_set k v ((k', v') # kvs) =
     (if k' = k then (k, v) # kvs else (k', v') # odict_set k v kvs)"

definition odict_get :: "(string \<times> ndarray) list \<Rightarrow> string \<Rightarrow> error + ndarray" where
  "odict_get kvs k = (case map_of kvs k of None \<Rightarrow> Inl KeyError | Some a \<Rightarrow> Inr a)"

subsection \<open>Assignment and deletion\<close>

text \<open>
  \<^verbatim>\<open>
  for column in self._columns.values():
      if column.shape != value.shape:
          raise ValueError("Expected %s values, received %s." % (column.shape[0], value.shape[0]))
  \<close>
  The shape of a one-dimensional array is its length; the first column whose length
  differs raises.
\<close>

fun check_shapes :: "ndarray list \<Rightarrow> ndarray \<Rightarrow> error option" where
  "check_shapes [] value = None"
| "check_shapes (column # rest) value =
     (if length (pos column) \<noteq> length (pos value)
      then Some (LengthMismatchError (length (pos column)) (length (pos value)))
      else check_shapes rest value)"

text \<open>
  Lines 213-214, the assignment to a part of one column:
  \<^verbatim>\<open>
  column, column_slice = index
  self._columns[column][column_slice] = value
  \<close>
  Unpacking raises unless the tuple has exactly two elements.
\<close>

definition setitem_slice :: "pyatom list \<Rightarrow> 'a pyvalue \<Rightarrow> 'a heap \<Rightarrow> table
    \<Rightarrow> (error + unit) \<times> 'a heap \<times> table" where
  "setitem_slice xs value h t =
     (case xs of
        [PyStr column, column_slice] \<Rightarrow>
          (case odict_get (columns t) column of
             Inl e \<Rightarrow> (Inl e, h, t)
           | Inr a \<Rightarrow> (case np_setitem a column_slice value h of (r, h') \<Rightarrow> (r, h', t)))
      | _ \<Rightarrow> (Inl ValueError, h, t))"

definition is_str :: "pyatom \<Rightarrow> bool" where
  "is_str x = (case x of PyStr s \<Rightarrow> True | _ \<Rightarrow> False)"

definition is_int_or_slice :: "pyatom \<Rightarrow> bool" where
  "is_int_or_slice x = (case x of PyInt i \<Rightarrow> True | PySlice a b c \<Rightarrow> True | _ \<Rightarrow> False)"

text \<open>
  \<^verbatim>\<open>__setitem__\<close> (lines 199-217). The result is the exception raised, if any, and the
  store and the table as the call leaves them.
\<close>

definition setitem :: "pyindex \<Rightarrow> 'a pyvalue \<Rightarrow> 'a heap \<times> table
    \<Rightarrow> (error + unit) \<times> 'a heap \<times> table" where
  "setitem index value s =
     (case s of (h, t) \<Rightarrow>
        (case index of
           Single (PyStr name) \<Rightarrow>
             (case ma_array value h of (arr, h') \<Rightarrow>
                if ndim value \<noteq> 1 then (Inl (DimensionalityError (ndim value) name), h', t)
                else
                  (case check_shapes (values_of t) arr of
                     Some e \<Rightarrow> (Inl e, h', t)
                   | None \<Rightarrow> (Inr (), h', t\<lparr>columns := odict_set name arr (columns t)\<rparr>)))
         | PyTuple xs \<Rightarrow>
             (case tuple_item xs 0 of
                Inl e \<Rightarrow> (Inl e, h, t)
              | Inr x0 \<Rightarrow>
                  if is_str x0 then
                    (case tuple_item xs 1 of
                       Inl e \<Rightarrow> (Inl e, h, t)
                     | Inr x1 \<Rightarrow>
                         if is_int_or_slice x1 then setitem_slice xs value h t
                         else (Inl UnsupportedAssignmentError, h, t))
                  else (Inl UnsupportedAssignmentError, h, t))
         | Single _ \<Rightarrow> (Inl UnsupportedAssignmentError, h, t)))"

text \<open>\<^verbatim>\<open>__delitem__\<close>: \<^verbatim>\<open>return self._columns.__delitem__(key)\<close>.\<close>

definition delitem :: "string \<Rightarrow> table \<Rightarrow> error + table" where
  "delitem key t =
     (if key \<in> set (keys t) then Inr (t\<lparr>columns := filter (\<lambda>kv. fst kv \<noteq> key) (columns t)\<rparr>)
      else Inl KeyError)"

subsection \<open>Construction\<close>

text \<open>
  What a Table can be made from (lines 75-107), in the order the constructor tests for
  it: an ordered dictionary or a file of named arrays, another Table, an unordered
  mapping, a sequence of pairs, a numpy array (its shape and its buffer, stored row by
  row), a Pandas data frame (its columns under their names converted to strings,
  and the levels of its index), or something else (the name of its type). Dictionaries are
  given by their items, whose keys are distinct.
\<close>

datatype 'a source =
    NoData
  | Ordered "(string \<times> 'a pyvalue) list"
  | FromTable table
  | Mapping "(string \<times> 'a pyvalue) list"
  | Sequence "(string \<times> 'a pyvalue) list"
  | FromNdarray "nat list" nat
  | FromDataFrame "(string \<times> 'a pyvalue) list" "'a pyvalue list"
  | Unsupported string

text \<open>
  The constructor's \<^verbatim>\<open>index\<close> argument: \<^verbatim>\<open>False\<close>, \<^verbatim>\<open>True\<close>, or a format string
  that is not empty, given by the name it produces for each level number
  (\<^verbatim>\<open>key_format.format(i, index=i)\<close>).
\<close>

datatype index_arg = IndexFalse | IndexTrue | IndexFormat "nat \<Rightarrow> string"

definition index_key :: "index_arg \<Rightarrow> nat \<Rightarrow> string" where
  "index_key index i =
     (case index of IndexFormat f \<Rightarrow> f i | _ \<Rightarrow> ''index'' @ str_of_nat i)"

text \<open>
  Lines 75-107: the names and the values, in the order the columns will have. Reading a
  column of a Table (\<^verbatim>\<open>data[key]\<close>) gives a view of the whole column, and so does
  \<^verbatim>\<open>data[:, i]\<close> on a two-dimensional array with \<open>c\<close> columns: the positions
  \<open>i\<close>, \<open>c + i\<close>, \<open>2 * c + i\<close>, ... of its buffer.
\<close>

definition source_columns :: "'a source \<Rightarrow> index_arg \<Rightarrow> error + (string \<times> 'a pyvalue) list" where
  "source_columns data index =
     (case data of
        NoData \<Rightarrow> Inr []
      | Ordered items \<Rightarrow> Inr items
      | FromTable t \<Rightarrow> Inr (map (\<lambda>(key, a). (key, PyArray a)) (columns t))
      | Mapping items \<Rightarrow> Inr (sort_key fst items)
      | Sequence items \<Rightarrow> Inr items
      | FromNdarray shp b \<Rightarrow>
          (case shp of
             [r, c] \<Rightarrow>
               Inr (map (\<lambda>i. (str_of_nat i, PyArray (NDArray b (map (\<lambda>j. j * c + i) [0..<r]))))
                      [0..<c])
           | _ \<Rightarrow> Inl NotTwoDimensional)
      | FromDataFrame items levels \<Rightarrow>
          (case index of
             IndexFalse \<Rightarrow> Inr items
           | _ \<Rightarrow> Inr (zip (map (index_key index) [0..<length levels]) levels @ items))
      | Unsupported type_name \<Rightarrow> Inl (UnsupportedSourceType type_name))"

text \<open>
  Lines 134-136: \<^verbatim>\<open>for key, value in zip(keys, values): self[key] = value\<close>. The first
  assignment that raises ends the construction.
\<close>

fun store_columns :: "(string \<times> 'a pyvalue) list \<Rightarrow> 'a heap \<times> table
    \<Rightarrow> (error + table) \<times> 'a heap" where
  "store_columns [] (h, t) = (Inr t, h)"
| "store_columns ((key, value) # rest) (h, t) =
     (case setitem (Single (PyStr key)) value (h, t) of
        (Inl e, h', t') \<Rightarrow> (Inl e, h')
      | (Inr u, h', t') \<Rightarrow> store_columns rest (h', t'))"

text \<open>\<^verbatim>\<open>Table.__init__\<close> (lines 66-136).\<close>

definition Table :: "'a source \<Rightarrow> index_arg \<Rightarrow> 'a heap \<Rightarrow> (error + table) \<times> 'a heap" where
  "Table data index h =
     (case data of
        NoData \<Rightarrow> (Inr empty_table, h)
      | _ \<Rightarrow>
          (case source_columns data index of
             Inl e \<Rightarrow> (Inl e, h)
           | Inr items \<Rightarrow>
               store_columns (zip (unique_keys (map fst items)) (map snd items)) (h, empty_table)))"

subsection \<open>Reading: \<^verbatim>\<open>__getitem__\<close> (lines 139-196)\<close>

text \<open>
  A read returns an array (or what numpy makes of the selector), a new Table, or, when the
  function runs off its end, \<^verbatim>\<open>None\<close>.
\<close>

datatype 'a result = Value "'a pyvalue" | SubTable table | ReturnedNone

text \<open>
  Lines 140-156: \<^verbatim>\<open>column\<close> and \<^verbatim>\<open>column_slice\<close>, both \<^verbatim>\<open>None\<close> to begin with.
\<close>

definition column_request :: "pyindex \<Rightarrow> error + (string option \<times> pyatom)" where
  "column_request index =
     (case index of
        Single x \<Rightarrow>
          (case x of
             PyStr s \<Rightarrow> Inr (Some s, PySlice None None None)
           | _ \<Rightarrow> Inr (None, PyNone))
      | PyTuple xs \<Rightarrow>
          (case tuple_item xs 0 of
             Inl e \<Rightarrow> Inl e
           | Inr x0 \<Rightarrow>
               (case x0 of
                  PyStr s \<Rightarrow>
                    (case tuple_item xs 1 of
                       Inl e \<Rightarrow> Inl e
                     | Inr x1 \<Rightarrow>
                         (case x1 of
                            PyInt i \<Rightarrow> Inr (Some s, PySlice (Some i) (Some (i + 1)) None)
                          | _ \<Rightarrow> Inr (Some s, x1)))
                | _ \<Rightarrow> Inr (None, PyNone))))"

text \<open>
  \<^verbatim>\<open>for column in columns\<close>: the names a Python object yields when iterated. A string
  yields its characters; an integer or a slice cannot be iterated. The elements of a list
  of integers are no names: the first of them, looked up among the columns, raises
  \<^verbatim>\<open>KeyError\<close> before anything else happens.
\<close>

definition column_names :: "pyatom \<Rightarrow> error + string list" where
  "column_names cols =
     (case cols of
        PyStrList ns \<Rightarrow> Inr ns
      | PyStr s \<Rightarrow> Inr (map (\<lambda>c. [c]) s)
      | PyIntList is \<Rightarrow> (if is = [] then Inr [] else Inl KeyError)
      | _ \<Rightarrow> Inl TypeError)"

text \<open>
  Line 196, the list comprehension
  \<^verbatim>\<open>[(column, self._columns[column][row_slice]) for column in columns]\<close>,
  with the indexing of one array as a parameter.
\<close>

fun select_columns :: "(ndarray \<Rightarrow> 'a heap \<Rightarrow> (error + 'a pyvalue) \<times> 'a heap)
    \<Rightarrow> (string \<times> ndarray) list \<Rightarrow> string list \<Rightarrow> 'a heap
    \<Rightarrow> (error + (string \<times> 'a pyvalue) list) \<times> 'a heap" where
  "select_columns sel cols [] h = (Inr [], h)"
| "select_columns sel cols (column # rest) h =
     (case odict_get cols column of
        Inl e \<Rightarrow> (Inl e, h)
      | Inr a \<Rightarrow>
          (case sel a h of
             (Inl e, h') \<Rightarrow> (Inl e, h')
           | (Inr v, h') \<Rightarrow>
               (case select_columns sel cols rest h' of
                  (Inl e, h'') \<Rightarrow> (Inl e, h'')
                | (Inr items, h'') \<Rightarrow> (Inr ((column, v) # items), h''))))"

text \<open>
  Lines 195-196: the new Table, made by the constructor from the list of pairs.
\<close>

definition new_table :: "(ndarray \<Rightarrow> 'a heap \<Rightarrow> (error + 'a pyvalue) \<times> 'a heap)
    \<Rightarrow> string list \<Rightarrow> 'a heap \<times> table \<Rightarrow> (error + 'a result) \<times> 'a heap" where
  "new_table sel names s =
     (case s of (h, t) \<Rightarrow>
        (case select_columns sel (columns t) names h of
           (Inl e, h') \<Rightarrow> (Inl e, h')
         | (Inr items, h') \<Rightarrow>
             (case Table (Sequence items) IndexFalse h' of
                (Inl e, h'') \<Rightarrow> (Inl e, h'')
              | (Inr u, h'') \<Rightarrow> (Inr (SubTable u), h''))))"

definition select_table :: "pyatom \<Rightarrow> pyatom \<Rightarrow> 'a heap \<times> table \<Rightarrow> (error + 'a result) \<times> 'a heap" where
  "select_table row_slice cols s =
     (if row_slice \<noteq> PyNone \<and> cols \<noteq> PyNone then
        (case column_names cols of
           Inl e \<Rightarrow> (Inl e, fst s)
         | Inr names \<Rightarrow> new_table (\<lambda>a. np_getitem a row_slice) names s)
      else (Inr ReturnedNone, fst s))"

text \<open>
  The whole of \<^verbatim>\<open>__getitem__\<close>. In its last branch (lines 187-193) the index is turned
  into an array: a list of names that is not empty becomes an array of strings and selects
  columns; a list of positions that is not empty becomes an array of integers and selects
  rows; what is left (\<^verbatim>\<open>None\<close>, the empty list) becomes an array of objects or of
  floats, which is taken for a row selector and which numpy refuses as an index for every
  column there is. That branch is never reached with a string.
\<close>

definition getitem :: "pyindex \<Rightarrow> 'a heap \<times> table \<Rightarrow> (error + 'a result) \<times> 'a heap" where
  "getitem index s =
     (case s of (h, t) \<Rightarrow>
        (case column_request index of
           Inl e \<Rightarrow> (Inl e, h)
         | Inr (column, column_slice) \<Rightarrow>
             (case (if column_slice \<noteq> PyNone then column else None) of
                Some name \<Rightarrow>
                  (case odict_get (columns t) name of
                     Inl e \<Rightarrow> (Inl e, h)
                   | Inr a \<Rightarrow>
                       (case np_getitem a column_slice h of
                          (Inl e, h') \<Rightarrow> (Inl e, h')
                        | (Inr v, h') \<Rightarrow> (Inr (Value v), h')))
              | None \<Rightarrow>
                  (case index of
                     Single x \<Rightarrow>
                       (case x of
                          PyInt i \<Rightarrow>
                            select_table (PySlice (Some i) (Some (i + 1)) None) (PyStrList (keys t)) s
                        | PySlice start stop step \<Rightarrow>
                            select_table (PySlice start stop step) (PyStrList (keys t)) s
                        | PyStrList ns \<Rightarrow>
                            (if ns \<noteq> [] then select_table (PySlice None None None) (PyStrList ns) s
                             else new_table (\<lambda>a h. (Inl IndexError, h)) (keys t) s)
                        | PyIntList is \<Rightarrow>
                            (if is \<noteq> [] then select_table (PyIntList is) (PyStrList (keys t)) s
                             else new_table (\<lambda>a h. (Inl IndexError, h)) (keys t) s)
                        | PyNone \<Rightarrow> new_table (\<lambda>a h. (Inl IndexError, h)) (keys t) s
                        | PyStr name \<Rightarrow> (Inl TypeError, h))
                   | PyTuple xs \<Rightarrow>
                       (case tuple_item xs 0 of
                          Inl e \<Rightarrow> (Inl e, h)
                        | Inr x0 \<Rightarrow>
                            (case tuple_item xs 1 of
                               Inl e \<Rightarrow> (Inl e, h)
                             | Inr x1 \<Rightarrow>
                                 select_table
                                   (case x0 of
                                      PyInt i \<Rightarrow> PySlice (Some i) (Some (i + 1)) None
                                    | _ \<Rightarrow> x0)
                                   (case x1 of PyStr name \<Rightarrow> PyStrList [name] | _ \<Rightarrow> x1)
                                   s))))))"

section \<open>Loading delimited text: \<^verbatim>\<open>read_csv\<close> (lines 331-366)\<close>

text \<open>
  A column that was loaded holds text; a column that was converted holds numbers. The
  type of the numbers is left open, and so is the conversion of one field,
  \<open>parse\<close>: numpy's reading of a string as a \<^verbatim>\<open>float64\<close>, which either gives a number or
  raises. The rows are what \<^verbatim>\<open>csv.reader\<close> yields.
\<close>

datatype 'n cell = Text string | Number 'n

text \<open>\<^verbatim>\<open>zip(*rows)\<close>: the columns, as many as the shortest row has fields.\<close>

definition zip_rows :: "'a list list \<Rightarrow> 'a list list" where
  "zip_rows rows =
     (case rows of
        [] \<Rightarrow> []
      | row # others \<Rightarrow>
          map (\<lambda>j. map (\<lambda>r. r ! j) rows) [0..<foldl min (length row) (map length others)])"

text \<open>
  \<^verbatim>\<open>column.astype("float64")\<close>: a new array of numbers; one field that cannot be read
  raises.
\<close>

fun astype_float :: "(string \<Rightarrow> 'n option) \<Rightarrow> 'n cell list \<Rightarrow> error + 'n cell list" where
  "astype_float parse [] = Inr []"
| "astype_float parse (c # cs) =
     (case (case c of Text s \<Rightarrow> parse s | Number x \<Rightarrow> Some x) of
        None \<Rightarrow> Inl ValueError
      | Some x \<Rightarrow>
          (case astype_float parse cs of Inl e \<Rightarrow> Inl e | Inr xs \<Rightarrow> Inr (Number x # xs)))"

text \<open>
  The body of the loop of lines 360-364; whatever is raised on the way is passed over.
  \<^verbatim>\<open>
  try:
      result[name] = result[name].astype("float64")
  except:
      pass
  \<close>
\<close>

definition convert_column :: "(string \<Rightarrow> 'n option) \<Rightarrow> string \<Rightarrow> 'n cell heap \<times> table
    \<Rightarrow> 'n cell heap \<times> table" where
  "convert_column parse name s =
     (case s of (h, t) \<Rightarrow>
        (case getitem (Single (PyStr name)) (h, t) of
           (Inr (Value (PyArray a)), h1) \<Rightarrow>
             (case astype_float parse (elems h1 a) of
                Inl e \<Rightarrow> (h1, t)
              | Inr xs \<Rightarrow>
                  (case alloc xs h1 of (b, h2) \<Rightarrow>
                     (case setitem (Single (PyStr name)) (PyArray b) (h2, t) of
                        (r, h3, t') \<Rightarrow> (h3, t'))))
         | (r, h1) \<Rightarrow> (h1, t)))"

text \<open>
  \<^verbatim>\<open>read_csv\<close>, from the rows on. A column of \<^verbatim>\<open>zip(*rows)\<close> has a field for every
  row, so it has a first field, the name.
\<close>

definition read_csv :: "(string \<Rightarrow> 'n option) \<Rightarrow> string list list \<Rightarrow> bool \<Rightarrow> 'n cell heap
    \<Rightarrow> (error + table) \<times> 'n cell heap" where
  "read_csv parse rows convert h =
     (case Table (Sequence (map (\<lambda>column. (hd column, PySeq (map Text (tl column)))) (zip_rows rows)))
             IndexFalse h of
        (Inl e, h') \<Rightarrow> (Inl e, h')
      | (Inr result, h') \<Rightarrow>
          if convert then
            (case fold (convert_column parse) (keys result) (h', result) of
               (h'', t) \<Rightarrow> (Inr t, h''))
          else (Inr result, h'))"

text \<open>
  A conversion for the examples: it reads a string of decimal digits as the number it
  writes and refuses everything else. numpy reads more than that (signs, fractions,
  exponents); nothing below depends on which strings are read.
\<close>

definition is_digit :: "char \<Rightarrow> bool" where
  "is_digit c \<longleftrightarrow> c \<in> set ''0123456789''"

definition parse_digits :: "string \<Rightarrow> real option" where
  "parse_digits s =
     (if s \<noteq> [] \<and> list_all is_digit s
      then Some (of_nat (foldl (\<lambda>n c. 10 * n + (of_char c - 48)) 0 s))
      else None)"

section \<open>Notions the properties are stated with\<close>

text \<open>
  The invariant of a Table: its names are distinct and its columns all have the length
  that \<^verbatim>\<open>shape\<close> reports.
\<close>

definition table_inv :: "table \<Rightarrow> bool" where
  "table_inv t \<longleftrightarrow>
     distinct (keys t) \<and> (\<forall>a \<in> set (values_of t). length (pos a) = fst (shape t))"

text \<open>The names of a Table with the values of each column, as the store holds them.\<close>

definition table_values :: "'a heap \<Rightarrow> table \<Rightarrow> (string \<times> 'a list) list" where
  "table_values h t = map (\<lambda>(k, a). (k, elems h a)) (columns t)"

text \<open>A Table whose columns are views of the columns of \<open>t\<close> at the rows \<open>js\<close>.\<close>

definition restrict_rows :: "nat list \<Rightarrow> table \<Rightarrow> table" where
  "restrict_rows js t = \<lparr>columns = map (\<lambda>(k, a). (k, view a js)) (columns t)\<rparr>"

text \<open>
  The columns of a Table refer to buffers of the store, at positions the buffers have.
\<close>

definition wf_table :: "'a heap \<Rightarrow> table \<Rightarrow> bool" where
  "wf_table h t \<longleftrightarrow>
     (\<forall>a \<in> set (values_of t). buf a < length h \<and> (\<forall>p \<in> set (pos a). p < length (h ! buf a)))"

text \<open>The number of elements of a value.\<close>

definition value_length :: "'a pyvalue \<Rightarrow> nat" where
  "value_length v =
     (case v of PyScalar x \<Rightarrow> 1 | PySeq xs \<Rightarrow> length xs | PyArray a \<Rightarrow> length (pos a)
      | PyNd d xs \<Rightarrow> length xs)"

text \<open>
  The Tables a program can come by, each with a store it may find itself in: the
  constructor makes them, from any source; a read of a Table makes them; assignments and
  deletions change them. The store also changes behind a Table's back, by assignments
  through other Tables and arrays that share it.
\<close>

inductive reachable :: "'a heap \<times> table \<Rightarrow> bool" where
  constructed: "Table data index h = (Inr t, h') \<Longrightarrow> reachable (h', t)"
| read: "reachable (h, t) \<Longrightarrow> getitem i (h, t) = (Inr (SubTable u), h') \<Longrightarrow> reachable (h', u)"
| assigned: "reachable (h, t) \<Longrightarrow> setitem i value (h, t) = (r, h', t') \<Longrightarrow> reachable (h', t')"
| deleted: "reachable (h, t) \<Longrightarrow> delitem key t = Inr t' \<Longrightarrow> reachable (h, t')"
| store_changed: "reachable (h, t) \<Longrightarrow> reachable (h', t)"

text \<open>
  The names of the source, in order, before they are made unique (lines 75-107).
\<close>

definition source_names :: "'a source \<Rightarrow> index_arg \<Rightarrow> string list" where
  "source_names data index =
     (case source_columns data index of Inl e \<Rightarrow> [] | Inr items \<Rightarrow> map fst items)"

text \<open>
  No name that occurs more than once is another such name followed by \<^verbatim>\<open>-\<close> and a
  number.
\<close>

definition collision_free :: "string list \<Rightarrow> bool" where
  "collision_free ks \<longleftrightarrow>
     (\<forall>k k' n. 1 < count_list ks k \<and> 1 < count_list ks k' \<longrightarrow> k' \<noteq> key_suffix k n)"

text \<open>
  The names reserved when the name at position \<open>i\<close> is dealt with: the names that occur
  once, and the names stored for the duplicates dealt with before, which are those of the
  smaller names (the outer loop follows the sorted order) and those of the same name at
  earlier positions.
\<close>

definition reserved_before :: "string list \<Rightarrow> string list \<Rightarrow> nat \<Rightarrow> string set" where
  "reserved_before ks stored i =
     {k. count_list ks k = 1}
     \<union> {stored ! j |j. j < length ks \<and> 1 < count_list ks (ks ! j)
                      \<and> (ks ! j < ks ! i \<or> ks ! j = ks ! i \<and> j < i)}"

text \<open>
  How a duplicate is named: the first occurrence keeps the name; a later one is the name
  with the least suffix from 1 on that gives a name not reserved.
\<close>

definition named :: "string list \<Rightarrow> string list \<Rightarrow> nat \<Rightarrow> bool" where
  "named ks stored i \<longleftrightarrow>
     (if \<forall>j < i. ks ! j \<noteq> ks ! i then stored ! i = ks ! i
      else \<exists>n\<ge>1. stored ! i = key_suffix (ks ! i) n
             \<and> key_suffix (ks ! i) n \<notin> reserved_before ks stored i
             \<and> (\<forall>m. 1 \<le> m \<and> m < n \<longrightarrow> key_suffix (ks ! i) m \<in> reserved_before ks stored i))"

text \<open>
  The invariants of the two loops, for the proofs. A set of positions is settled when the
  names there are reserved and differ from each other. \<open>K\<close> is the set of names dealt
  with so far.
\<close>

definition settled :: "nat set \<Rightarrow> string list \<Rightarrow> string list \<Rightarrow> bool" where
  "settled T ks reserved \<longleftrightarrow>
     (\<forall>i \<in> T. i < length ks \<and> ks ! i \<in> set reserved) \<and> inj_on (\<lambda>i. ks ! i) T"

definition dedup_inv :: "string list \<Rightarrow> string set \<Rightarrow> string list \<times> string list \<Rightarrow> bool" where
  "dedup_inv ks0 K st \<longleftrightarrow>
     (case st of (ks, reserved) \<Rightarrow>
        length ks = length ks0
        \<and> settled {i. i < length ks0 \<and> ks0 ! i \<in> K} ks reserved
        \<and> (\<forall>i < length ks0. ks0 ! i \<notin> K \<longrightarrow> ks ! i = ks0 ! i)
        \<and> (\<forall>i < length ks0. count_list ks0 (ks0 ! i) = 1 \<longrightarrow> ks ! i = ks0 ! i))"

definition nc_inv :: "string list \<Rightarrow> string set \<Rightarrow> string list \<times> string list \<Rightarrow> bool" where
  "nc_inv ks0 K st \<longleftrightarrow>
     (case st of (ks, reserved) \<Rightarrow>
        length ks = length ks0
        \<and> set reserved = {ks ! i |i. i < length ks0 \<and> ks0 ! i \<in> K}
        \<and> (\<forall>i < length ks0. ks0 ! i \<notin> K \<longrightarrow> ks ! i = ks0 ! i)
        \<and> (\<forall>i < length ks0. count_list ks0 (ks0 ! i) = 1 \<longrightarrow> ks ! i = ks0 ! i)
        \<and> (\<forall>i < length ks0. ks ! i = ks0 ! i \<or> (\<exists>n. ks ! i = key_suffix (ks0 ! i) n))
        \<and> (\<forall>i < length ks0. ks0 ! i \<in> K \<and> 1 < count_list ks0 (ks0 ! i) \<longrightarrow> named ks0 ks i))"

text \<open>
  The reads that ask for all the columns (an integer, a slice, a list of positions), and
  the reads that name the columns they ask for, with the names in the order given.
\<close>

definition all_columns :: "pyindex \<Rightarrow> bool" where
  "all_columns index =
     (case index of
        Single x \<Rightarrow> (case x of PyInt i \<Rightarrow> True | PySlice a b c \<Rightarrow> True | PyIntList rows \<Rightarrow> True
                     | _ \<Rightarrow> False)
      | PyTuple xs \<Rightarrow> False)"

definition explicit_columns :: "pyindex \<Rightarrow> string list option" where
  "explicit_columns index =
     (case index of
        PyTuple xs \<Rightarrow>
          (case xs of
             rows # cols # rest \<Rightarrow>
               (case cols of PyStrList names \<Rightarrow> Some names | PyStr name \<Rightarrow> Some [name]
                | _ \<Rightarrow> None)
           | _ \<Rightarrow> None)
      | Single x \<Rightarrow>
          (case x of PyStrList names \<Rightarrow> (if names = [] then None else Some names) | _ \<Rightarrow> None))"



text \<open>
  What a column of loaded text is to become when conversion is on: numbers when every
  field can be read, the text as it is otherwise. The second definition is what the loop
  does to a column of any kind, for the proofs.
\<close>

definition convert_fields :: "(string \<Rightarrow> 'n option) \<Rightarrow> string list \<Rightarrow> 'n cell list" where
  "convert_fields parse texts =
     (if \<forall>s \<in> set texts. parse s \<noteq> None then map (\<lambda>s. Number (the (parse s))) texts
      else map Text texts)"

definition converted :: "(string \<Rightarrow> 'n option) \<Rightarrow> 'n cell list \<Rightarrow> 'n cell list" where
  "converted parse xs = (case astype_float parse xs of Inl e \<Rightarrow> xs | Inr ys \<Rightarrow> ys)"

text \<open>An example: a Table of three columns and five rows, and the store it lives in.\<close>

definition example_heap :: "int heap" where
  "example_heap = [[1, 2, 3, 4, 5], [10, 20, 30, 40, 50], [7, 7, 7, 7, 7]]"

definition example_table :: table where
  "example_table =
     \<lparr>columns = [(''a'', NDArray 0 [0, 1, 2, 3, 4]), (''b'', NDArray 1 [0, 1, 2, 3, 4]),
                 (''c'', NDArray 2 [0, 1, 2, 3, 4])]\<rparr>"

section \<open>Lemmas: construction from arrays, reading by slice\<close>

lemma alter_duplicates_singles:
  "\<forall>kc \<in> set kcs. snd kc = 1 \<Longrightarrow> alter_duplicates kcs st = st"
  by (induction kcs st rule: alter_duplicates.induct) auto

lemma count_list_distinct: "distinct xs \<Longrightarrow> x \<in> set xs \<Longrightarrow> count_list xs x = 1"
  by (induction xs) (auto simp: count_list_0_iff)

lemma unique_keys_distinct: "distinct ks \<Longrightarrow> unique_keys ks = ks"
  by (simp add: unique_keys_def unique_counts_def Let_def alter_duplicates_singles count_list_distinct)

lemma check_shapes_None:
  "check_shapes cs v = None \<longleftrightarrow> (\<forall>c \<in> set cs. length (pos c) = length (pos v))"
  by (induction cs) auto

lemma odict_set_new: "k \<notin> fst ` set kvs \<Longrightarrow> odict_set k v kvs = kvs @ [(k, v)]"
  by (induction kvs) auto

lemma keys_odict_set:
  "map fst (odict_set k v kvs) = (if k \<in> fst ` set kvs then map fst kvs else map fst kvs @ [k])"
  by (induction kvs) force+

lemma setitem_name_array:
  "check_shapes (values_of t) a = None \<Longrightarrow>
   setitem (Single (PyStr k)) (PyArray a) (h, t) = (Inr (), h, t\<lparr>columns := odict_set k a (columns t)\<rparr>)"
  by (simp add: setitem_def ma_array_def ndim_def)

lemma store_columns_arrays:
  "distinct (keys t @ map fst cols) \<Longrightarrow>
   \<forall>a \<in> set (values_of t) \<union> snd ` set cols. length (pos a) = n \<Longrightarrow>
   store_columns (map (\<lambda>(k, a). (k, PyArray a)) cols) (h, t) = (Inr (t\<lparr>columns := columns t @ cols\<rparr>), h)"
proof (induction cols arbitrary: t)
  case Nil
  then show ?case by simp
next
  case (Cons c cols)
  obtain k a where c: "c = (k, a)" by (cases c)
  let ?t = "t\<lparr>columns := columns t @ [(k, a)]\<rparr>"
  have chk: "check_shapes (values_of t) a = None"
    using Cons.prems(2) c by (simp add: check_shapes_None)
  have new: "k \<notin> fst ` set (columns t)"
    using Cons.prems(1) c by (auto simp: keys_def)
  have step: "setitem (Single (PyStr k)) (PyArray a) (h, t) = (Inr (), h, ?t)"
    by (simp add: setitem_name_array [OF chk] odict_set_new [OF new])
  have d: "distinct (keys ?t @ map fst cols)"
    using Cons.prems(1) c by (simp add: keys_def)
  have l: "\<forall>a \<in> set (values_of ?t) \<union> snd ` set cols. length (pos a) = n"
    using Cons.prems(2) c by (auto simp: values_of_def)
  show ?case
    using Cons.IH [OF d l] step c by simp
qed

lemma Table_Sequence_arrays:
  assumes "distinct (map fst cols)" and "\<forall>a \<in> snd ` set cols. length (pos a) = n"
  shows "Table (Sequence (map (\<lambda>(k, a). (k, PyArray a)) cols)) index h = (Inr \<lparr>columns = cols\<rparr>, h)"
proof -
  let ?items = "map (\<lambda>(k, a). (k, PyArray a)) cols"
  have f: "map (fst \<circ> (\<lambda>(k, a). (k, PyArray a))) cols = map fst cols" by (induction cols) auto
  have z: "zip (map fst cols) (map (snd \<circ> (\<lambda>(k, a). (k, PyArray a))) cols) = ?items"
    by (induction cols) auto
  have "store_columns ?items (h, empty_table) = (Inr (empty_table\<lparr>columns := columns empty_table @ cols\<rparr>), h)"
    by (rule store_columns_arrays [where n = n]) (use assms in \<open>auto simp: empty_table_def keys_def values_of_def\<close>)
  then show ?thesis
    using assms(1) by (simp add: Table_def source_columns_def f z unique_keys_distinct empty_table_def)
qed


lemma slice_indices_int:
  "slice_indices (Some i) (Some (i + 1)) None n =
     Inr (if 0 \<le> i \<and> i < int n then [nat i]
          else if i < - 1 \<and> - int n \<le> i then [nat (i + int n)] else [])"
proof -
  have one: "\<And>b. py_range b (b + 1) 1 = [b]"
    by (simp add: py_range_def)
  have none: "\<And>b e. e \<le> b \<Longrightarrow> py_range b e 1 = []"
    by (simp add: py_range_def)
  consider (inside) "0 \<le> i \<and> i < int n" | (above) "int n \<le> i" | (minus_one) "i = - 1"
    | (wrap) "i < - 1 \<and> - int n \<le> i" | (below) "i < - int n \<and> i < - 1"
    by linarith
  then show ?thesis
  proof cases
    case inside
    then show ?thesis
      by (simp add: slice_indices_def Let_def max_def min_def one)
  next
    case above
    then show ?thesis
      by (simp add: slice_indices_def Let_def max_def min_def none)
  next
    case minus_one
    then show ?thesis
      by (simp add: slice_indices_def Let_def max_def min_def none)
  next
    case wrap
    have r: "py_range (i + int n) (i + 1 + int n) 1 = [i + int n]"
      by (simp add: py_range_def)
    show ?thesis
    proof (cases "i + int n \<le> 0")
      case True
      with wrap have i: "i = - int n" by simp
      have "py_range 0 1 1 = [0]" by (simp add: py_range_def)
      with wrap show ?thesis
        unfolding i by (simp add: slice_indices_def Let_def max_def min_def)
    next
      case False
      with wrap r show ?thesis
        by (simp add: slice_indices_def Let_def max_def min_def)
    qed
  next
    case below
    then show ?thesis
      by (simp add: slice_indices_def Let_def max_def min_def none)
  qed
qed

lemma select_columns_slice:
  assumes "slice_indices s e st n = Inr js"
    and "\<forall>name \<in> set ns. \<exists>a. map_of cols name = Some a \<and> length (pos a) = n"
  shows "select_columns (\<lambda>a. np_getitem a (PySlice s e st)) cols ns h =
     (Inr (map (\<lambda>name. (name, PyArray (view (the (map_of cols name)) js))) ns), h)"
  using assms(2)
proof (induction ns)
  case Nil
  then show ?case by simp
next
  case (Cons name ns)
  then obtain a where a: "map_of cols name = Some a" "length (pos a) = n" by auto
  have "np_getitem a (PySlice s e st) h = (Inr (PyArray (view a js)), h)"
    using assms(1) a(2) by (simp add: np_getitem_def)
  with Cons a show ?case
    by (simp add: odict_get_def)
qed

lemma map_of_keys:
  "distinct (map fst cols) \<Longrightarrow>
   map (\<lambda>name. f name (the (map_of cols name))) (map fst cols) = map (\<lambda>(k, a). f k a) cols"
proof (induction cols)
  case Nil
  then show ?case by simp
next
  case (Cons c cols)
  obtain k a where c: "c = (k, a)" by (cases c)
  have "map (\<lambda>name. f name (the (map_of (c # cols) name))) (map fst cols)
      = map (\<lambda>name. f name (the (map_of cols name))) (map fst cols)"
    using Cons.prems c by (intro map_cong) auto
  with Cons c show ?case by simp
qed

lemma table_inv_lengths:
  "table_inv t \<Longrightarrow> (k, a) \<in> set (columns t) \<Longrightarrow> length (pos a) = fst (shape t)"
  by (force simp: table_inv_def values_of_def)

lemma select_table_slice:
  assumes inv: "table_inv t" and js: "slice_indices s e st (fst (shape t)) = Inr js"
  shows "select_table (PySlice s e st) (PyStrList (keys t)) (h, t) =
     (Inr (SubTable (restrict_rows js t)), h)"
proof -
  let ?n = "fst (shape t)"
  have d: "distinct (map fst (columns t))"
    using inv by (simp add: table_inv_def keys_def)
  have all: "\<forall>name \<in> set (keys t). \<exists>a. map_of (columns t) name = Some a \<and> length (pos a) = ?n"
  proof
    fix name assume "name \<in> set (keys t)"
    then obtain a where m: "(name, a) \<in> set (columns t)" by (auto simp: keys_def)
    with d have "map_of (columns t) name = Some a" by simp
    with table_inv_lengths [OF inv m] show "\<exists>a. map_of (columns t) name = Some a \<and> length (pos a) = ?n"
      by simp
  qed
  let ?cols = "map (\<lambda>(k, a). (k, view a js)) (columns t)"
  have "map (\<lambda>name. (name, PyArray (view (the (map_of (columns t) name)) js))) (map fst (columns t))
      = map (\<lambda>(k, a). (k, PyArray (view a js))) (columns t)"
    by (rule map_of_keys [OF d])
  also have "\<dots> = map (\<lambda>(k, a). (k, PyArray a)) ?cols"
    by (simp add: case_prod_unfold comp_def)
  finally have sel: "select_columns (\<lambda>a. np_getitem a (PySlice s e st)) (columns t) (keys t) h =
     (Inr (map (\<lambda>(k, a). (k, PyArray a)) ?cols), h)"
    using select_columns_slice [OF js all, of h] by (simp add: keys_def)
  have d': "distinct (map fst ?cols)"
    using d by (simp add: case_prod_unfold comp_def)
  have l': "\<forall>a \<in> snd ` set ?cols. length (pos a) = length js"
    by (auto simp: view_def)
  show ?thesis
    by (simp add: select_table_def column_names_def new_table_def sel
        Table_Sequence_arrays [OF d' l'] restrict_rows_def del: map_map)
qed

lemma getitem_int:
  assumes "table_inv t" and "slice_indices (Some i) (Some (i + 1)) None (fst (shape t)) = Inr js"
  shows "getitem (Single (PyInt i)) (h, t) = (Inr (SubTable (restrict_rows js t)), h)"
  using select_table_slice [OF assms] by (simp add: getitem_def column_request_def)

lemma getitem_slice:
  assumes "table_inv t" and "slice_indices s e st (fst (shape t)) = Inr js"
  shows "getitem (Single (PySlice s e st)) (h, t) = (Inr (SubTable (restrict_rows js t)), h)"
  using select_table_slice [OF assms] by (simp add: getitem_def column_request_def)

lemma keys_restrict_rows: "keys (restrict_rows js t) = keys t"
  by (simp add: restrict_rows_def keys_def case_prod_unfold comp_def)

lemma shape_restrict_rows:
  "shape (restrict_rows js t) = (if columns t = [] then 0 else length js, length (columns t))"
  by (cases "columns t") (auto simp: restrict_rows_def shape_def view_def)

lemma elems_view:
  "\<forall>j \<in> set js. j < length (pos a) \<Longrightarrow> elems h (view a js) = map (\<lambda>j. elems h a ! j) js"
  by (simp add: elems_def view_def)

lemma table_values_restrict_rows:
  assumes "table_inv t" and "\<forall>j \<in> set js. j < fst (shape t)"
  shows "table_values h (restrict_rows js t) = map (\<lambda>(k, xs). (k, map (\<lambda>j. xs ! j) js)) (table_values h t)"
proof -
  have "\<And>k a. (k, a) \<in> set (columns t) \<Longrightarrow> elems h (view a js) = map (\<lambda>j. elems h a ! j) js"
    using assms table_inv_lengths [OF assms(1)] by (intro elems_view) auto
  then show ?thesis
    by (auto simp: table_values_def restrict_rows_def)
qed

lemma shape_snd: "snd (shape t) = length (columns t)"
  by (simp add: shape_def)

lemma example_table_constructed:
  "Table (Sequence [(''a'', PySeq [1, 2, 3, 4, 5]), (''b'', PySeq [10, 20, 30, 40, 50]),
                    (''c'', PySeq [7, 7, 7, 7, 7])]) IndexFalse [] = (Inr example_table, example_heap)"
  by (simp add: Table_def source_columns_def unique_keys_def unique_counts_def alter_duplicates_singles
      setitem_def ma_array_def alloc_def ndim_def values_of_def empty_table_def
      example_table_def example_heap_def)

lemma example_table_inv: "table_inv example_table"
  by (simp add: table_inv_def example_table_def keys_def values_of_def shape_def)

lemma example_table_shape: "shape example_table = (5, 3)"
  by (simp add: example_table_def shape_def)

section \<open>Lemmas: the invariant is kept\<close>

lemma table_invI:
  "distinct (keys t) \<Longrightarrow> \<forall>a \<in> set (values_of t). length (pos a) = n \<Longrightarrow> table_inv t"
  by (cases "columns t") (auto simp: table_inv_def shape_def values_of_def)

lemma table_inv_empty: "table_inv empty_table"
  by (simp add: table_inv_def empty_table_def keys_def values_of_def)

lemma set_odict_set: "set (odict_set k v kvs) \<subseteq> insert (k, v) (set kvs)"
  by (induction kvs) (auto split: if_splits)

lemma distinct_odict_set: "distinct (map fst kvs) \<Longrightarrow> distinct (map fst (odict_set k v kvs))"
  by (simp add: keys_odict_set)

lemma ma_array_length: "ndim v = 1 \<Longrightarrow> ma_array v h = (arr, h') \<Longrightarrow> length (pos arr) = value_length v"
  by (cases v) (auto simp: ma_array_def alloc_def ndim_def value_length_def)

lemma setitem_name_cases:
  assumes "setitem (Single (PyStr name)) value (h, t) = (r, h', t')"
  obtains (raised) e where "r = Inl e" "t' = t"
  | (stored) arr where "r = Inr ()" "ma_array value h = (arr, h')" "ndim value = 1"
      "check_shapes (values_of t) arr = None" "t' = t\<lparr>columns := odict_set name arr (columns t)\<rparr>"
  using assms by (auto simp: setitem_def split: prod.splits if_splits option.splits)

lemma setitem_table_cases:
  assumes "setitem i value (h, t) = (r, h', t')"
  obtains (same) "t' = t"
  | (stored) name arr where "i = Single (PyStr name)" "r = Inr ()" "ma_array value h = (arr, h')"
      "ndim value = 1" "check_shapes (values_of t) arr = None"
      "t' = t\<lparr>columns := odict_set name arr (columns t)\<rparr>"
proof (cases i)
  case (Single x)
  show ?thesis
  proof (cases x)
    case (PyStr name)
    with Single assms show ?thesis
      by (auto elim!: setitem_name_cases intro: same stored)
  qed (use Single assms in \<open>auto simp: setitem_def intro: same\<close>)
next
  case (PyTuple xs)
  with assms have "t' = t"
    by (auto simp: setitem_def setitem_slice_def split: sum.splits if_splits list.splits pyatom.splits prod.splits)
  then show ?thesis by (rule same)
qed

lemma setitem_inv:
  assumes "setitem i value (h, t) = (r, h', t')" and "table_inv t"
  shows "table_inv t'"
  using assms(1)
proof (cases rule: setitem_table_cases)
  case same
  with assms(2) show ?thesis by simp
next
  case (stored name arr)
  have d: "distinct (keys t')"
    using assms(2) stored(6) by (simp add: table_inv_def keys_def distinct_odict_set)
  have "\<forall>a \<in> set (values_of t'). length (pos a) = length (pos arr)"
    using stored(5,6) set_odict_set [of name arr "columns t"]
    by (auto simp: check_shapes_None values_of_def)
  with d show ?thesis by (rule table_invI)
qed

lemma delitem_inv:
  assumes "delitem key t = Inr t'" and "table_inv t"
  shows "table_inv t'"
proof -
  from assms(1) have t': "t' = t\<lparr>columns := filter (\<lambda>kv. fst kv \<noteq> key) (columns t)\<rparr>"
    by (auto simp: delitem_def split: if_splits)
  have "distinct (keys t')"
    using assms(2) by (simp add: t' table_inv_def keys_def distinct_map_filter)
  moreover have "\<forall>a \<in> set (values_of t'). length (pos a) = fst (shape t)"
    using assms(2) by (auto simp: t' table_inv_def values_of_def)
  ultimately show ?thesis by (rule table_invI)
qed

lemma store_columns_inv:
  "store_columns items (h, t) = (Inr t', h') \<Longrightarrow> table_inv t \<Longrightarrow> table_inv t'"
proof (induction items arbitrary: h t)
  case Nil
  then show ?case by simp
next
  case (Cons item items)
  obtain key v where item: "item = (key, v)" by (cases item)
  obtain r h1 t1 where step: "setitem (Single (PyStr key)) v (h, t) = (r, h1, t1)"
    by (cases "setitem (Single (PyStr key)) v (h, t)") auto
  with Cons.prems(1) item have "store_columns items (h1, t1) = (Inr t', h')"
    by (cases r) auto
  moreover have "table_inv t1"
    using setitem_inv [OF step Cons.prems(2)] .
  ultimately show ?case by (rule Cons.IH)
qed

lemma Table_inv: "Table data index h = (Inr t, h') \<Longrightarrow> table_inv t"
  by (cases data)
     (auto simp: Table_def table_inv_empty split: sum.splits dest: store_columns_inv [OF _ table_inv_empty])

lemma new_table_inv: "new_table sel names s = (Inr (SubTable u), h') \<Longrightarrow> table_inv u"
  by (auto simp: new_table_def split: prod.splits sum.splits dest: Table_inv)

lemma select_table_inv: "select_table rs cs s = (Inr (SubTable u), h') \<Longrightarrow> table_inv u"
  by (auto simp: select_table_def split: if_splits sum.splits dest: new_table_inv)

lemma getitem_inv:
  assumes "getitem i (h, t) = (Inr (SubTable u), h')"
  shows "table_inv u"
proof (cases i)
  case (Single x)
  with assms show ?thesis
    by (cases x)
       (auto simp: getitem_def column_request_def split: sum.splits prod.splits if_splits
          dest: select_table_inv new_table_inv)
next
  case (PyTuple xs)
  with assms show ?thesis
    by (auto simp: getitem_def column_request_def split: sum.splits prod.splits if_splits pyatom.splits option.splits
          dest: select_table_inv new_table_inv)
qed

lemma reachable_inv: "reachable s \<Longrightarrow> table_inv (snd s)"
proof (induction rule: reachable.induct)
  case (constructed data index h t h')
  then show ?case by (simp add: Table_inv)
next
  case (read h t i u h')
  then show ?case by (simp add: getitem_inv)
next
  case (assigned h t i "value" r h' t')
  then show ?case by (simp add: setitem_inv)
next
  case (deleted h t key t')
  then show ?case by (simp add: delitem_inv)
next
  case (store_changed h t h')
  then show ?case by simp
qed

lemma elems_append: "buf a < length h \<Longrightarrow> elems (h @ h2) a = elems h a"
  by (simp add: elems_def nth_append)

lemma ma_array_extends: "ma_array v h = (arr, h') \<Longrightarrow> \<exists>h2. h' = h @ h2"
  by (cases v) (auto simp: ma_array_def alloc_def)

lemma table_values_append:
  "wf_table h t \<Longrightarrow> table_values (h @ h2) t = table_values h t"
  by (auto simp: table_values_def wf_table_def values_of_def elems_append)

lemma example_table_wf: "wf_table example_heap example_table"
  by (simp add: wf_table_def example_table_def example_heap_def values_of_def)

section \<open>Lemmas: the names are made unique\<close>

lemma next_suffix_fresh: "key_suffix key (next_suffix reserved key suffix) \<notin> set reserved"
  by (induction reserved key suffix rule: next_suffix.induct) (subst next_suffix.simps, simp)

lemma next_suffix_ge: "suffix \<le> next_suffix reserved key suffix"
proof (induction reserved key suffix rule: next_suffix.induct)
  case (1 reserved key suffix)
  show ?case
  proof (cases "key_suffix key suffix \<in> set reserved")
    case True
    with "1.IH" have "suffix + 1 \<le> next_suffix reserved key (suffix + 1)" by simp
    with True show ?thesis by (subst next_suffix.simps) simp
  next
    case False
    then show ?thesis by (subst next_suffix.simps) simp
  qed
qed

lemma next_suffix_least:
  "suffix \<le> m \<Longrightarrow> m < next_suffix reserved key suffix \<Longrightarrow> key_suffix key m \<in> set reserved"
proof (induction reserved key suffix rule: next_suffix.induct)
  case (1 reserved key suffix)
  show ?case
  proof (cases "key_suffix key suffix \<in> set reserved")
    case True
    show ?thesis
    proof (cases "m = suffix")
      case True
      with \<open>key_suffix key suffix \<in> set reserved\<close> show ?thesis by simp
    next
      case False
      with "1.prems" have le: "suffix + 1 \<le> m" by simp
      from "1.prems"(2) True have "m < next_suffix reserved key (suffix + 1)"
        by (subst (asm) next_suffix.simps) simp
      with "1.IH" [OF True le] show ?thesis by simp
    qed
  next
    case False
    with "1.prems" show ?thesis by (subst (asm) next_suffix.simps) simp
  qed
qed

lemma settled_keep:
  assumes "settled T ks reserved" and "i < length ks" and "ks ! i = key" and "key \<notin> set reserved"
  shows "settled (insert i T) ks (key # reserved)"
proof -
  have "i \<notin> T" using assms by (auto simp: settled_def)
  moreover have "\<forall>j \<in> T. ks ! j \<noteq> ks ! i" using assms by (auto simp: settled_def)
  ultimately show ?thesis
    using assms by (auto simp: settled_def inj_on_def)
qed

lemma settled_rename:
  assumes "settled T ks reserved" and "i < length ks" and "new \<notin> set reserved"
  shows "settled (insert i T) (ks[i := new]) (new # reserved)"
proof -
  have 1: "\<forall>j \<in> insert i T. j < length (ks[i := new]) \<and> ks[i := new] ! j \<in> set (new # reserved)"
    using assms by (auto simp: settled_def nth_list_update)
  have 2: "inj_on (\<lambda>j. ks[i := new] ! j) (insert i T)"
  proof (rule inj_onI)
    fix a b assume ab: "a \<in> insert i T" "b \<in> insert i T" "ks[i := new] ! a = ks[i := new] ! b"
    show "a = b"
    proof (rule ccontr)
      assume ne: "a \<noteq> b"
      have old: "\<And>j. j \<in> T \<Longrightarrow> j \<noteq> i \<Longrightarrow> ks[i := new] ! j = ks ! j \<and> ks ! j \<in> set reserved"
        using assms(1) by (auto simp: settled_def)
      consider "a = i" "b \<noteq> i" | "b = i" "a \<noteq> i" | "a \<noteq> i" "b \<noteq> i"
        using ne by blast
      then show False
      proof cases
        case 1
        with ab old [of b] assms(2,3) show False by auto
      next
        case 2
        with ab old [of a] assms(2,3) show False by auto
      next
        case 3
        with ab old [of a] old [of b] assms(1) ne show False
          by (auto simp: settled_def inj_on_def)
      qed
    qed
  qed
  from 1 2 show ?thesis by (simp add: settled_def)
qed

lemma rename_at_settled:
  assumes "rename_at key is (ks, reserved, suffix) = (ks', reserved', suffix')"
    and "settled T ks reserved" and "distinct is" and "\<forall>i \<in> set is. i < length ks \<and> ks ! i = key"
  shows "settled (T \<union> set is) ks' reserved' \<and> length ks' = length ks
       \<and> (\<forall>j. j \<notin> set is \<longrightarrow> ks' ! j = ks ! j)"
  using assms
proof (induction "is" arbitrary: T ks reserved suffix)
  case Nil
  then show ?case by simp
next
  case (Cons i "is")
  have i: "i < length ks" "ks ! i = key" using Cons.prems(4) by auto
  show ?case
  proof (cases "key \<in> set reserved")
    case False
    with Cons.prems(1) have run: "rename_at key is (ks, key # reserved, suffix) = (ks', reserved', suffix')"
      by simp
    have s: "settled (insert i T) ks (key # reserved)"
      using settled_keep [OF Cons.prems(2) i False] .
    from Cons.IH [OF run s] Cons.prems(3,4)
    show ?thesis by auto
  next
    case True
    let ?n = "next_suffix reserved key suffix"
    let ?new = "key_suffix key ?n"
    from True Cons.prems(1)
    have run: "rename_at key is (ks[i := ?new], ?new # reserved, ?n) = (ks', reserved', suffix')"
      by (simp add: Let_def)
    have s: "settled (insert i T) (ks[i := ?new]) (?new # reserved)"
      using settled_rename [OF Cons.prems(2) i(1) next_suffix_fresh] .
    have rest: "\<forall>j \<in> set is. j < length (ks[i := ?new]) \<and> ks[i := ?new] ! j = key"
      using Cons.prems(3,4) by (auto simp: nth_list_update)
    from Cons.IH [OF run s _ rest] Cons.prems(3)
    show ?thesis by (auto simp: nth_list_update)
  qed
qed

lemma flatnonzero_eq_props:
  "distinct (flatnonzero_eq ks key)" "sorted (flatnonzero_eq ks key)"
  "set (flatnonzero_eq ks key) = {i. i < length ks \<and> ks ! i = key}"
  by (auto simp: flatnonzero_eq_def sorted_wrt_filter)

lemma dedup_inv_step:
  assumes inv: "dedup_inv ks0 K (ks, reserved)" and c: "count_list ks0 key \<noteq> 1"
    and run: "rename_at key (flatnonzero_eq ks key) (ks, reserved, suffix) = (ks', reserved', suffix')"
  shows "dedup_inv ks0 (insert key K) (ks', reserved')"
proof -
  let ?F = "flatnonzero_eq ks key"
  let ?T = "{i. i < length ks0 \<and> ks0 ! i \<in> K}"
  from inv have len: "length ks = length ks0"
    and st: "settled ?T ks reserved"
    and un: "\<forall>i < length ks0. ks0 ! i \<notin> K \<longrightarrow> ks ! i = ks0 ! i"
    and sg: "\<forall>i < length ks0. count_list ks0 (ks0 ! i) = 1 \<longrightarrow> ks ! i = ks0 ! i"
    by (auto simp: dedup_inv_def)
  have F: "\<forall>i \<in> set ?F. i < length ks \<and> ks ! i = key"
    by (simp add: flatnonzero_eq_props)
  from rename_at_settled [OF run st flatnonzero_eq_props(1) F]
  have st': "settled (?T \<union> set ?F) ks' reserved'" and len': "length ks' = length ks"
    and out: "\<forall>j. j \<notin> set ?F \<longrightarrow> ks' ! j = ks ! j"
    by auto
  have T: "?T \<union> set ?F = {i. i < length ks0 \<and> ks0 ! i \<in> insert key K}"
    using un len by (auto simp: flatnonzero_eq_props)
  have un': "\<forall>i < length ks0. ks0 ! i \<notin> insert key K \<longrightarrow> ks' ! i = ks0 ! i"
    using un out len by (auto simp: flatnonzero_eq_props)
  have sg': "\<forall>i < length ks0. count_list ks0 (ks0 ! i) = 1 \<longrightarrow> ks' ! i = ks0 ! i"
  proof (intro allI impI)
    fix i assume i: "i < length ks0" "count_list ks0 (ks0 ! i) = 1"
    with sg have e: "ks ! i = ks0 ! i" by simp
    with i c have "ks ! i \<noteq> key" by auto
    then have "i \<notin> set ?F" by (simp add: flatnonzero_eq_props)
    with out e show "ks' ! i = ks0 ! i" by simp
  qed
  from st' T len len' un' sg' show ?thesis
    by (simp add: dedup_inv_def)
qed

lemma alter_duplicates_inv:
  assumes "dedup_inv ks0 K st" and "\<forall>kc \<in> set kcs. snd kc = count_list ks0 (fst kc)"
    and "\<forall>k. count_list ks0 k = 1 \<longrightarrow> k \<in> K"
  shows "dedup_inv ks0 (K \<union> fst ` set kcs) (alter_duplicates kcs st)"
  using assms
proof (induction kcs st arbitrary: K rule: alter_duplicates.induct)
  case (1 st)
  then show ?case by simp
next
  case (2 key count rest ks reserved)
  show ?case
  proof (cases "count = 1")
    case True
    with "2.prems" have "key \<in> K" by simp
    then have "K \<union> fst ` set ((key, count) # rest) = K \<union> fst ` set rest" by auto
    with "2.IH"(1) [OF True "2.prems"(1)] "2.prems"(2,3) True show ?thesis by simp
  next
    case False
    obtain ks' reserved' suffix' where
      run: "rename_at key (flatnonzero_eq ks key) (ks, reserved, 1) = (ks', reserved', suffix')"
      by (cases "rename_at key (flatnonzero_eq ks key) (ks, reserved, 1)") auto
    have c: "count_list ks0 key \<noteq> 1"
      using False "2.prems"(2) by simp
    have inv': "dedup_inv ks0 (insert key K) (ks', reserved')"
      using dedup_inv_step [OF "2.prems"(1) c run] .
    have "dedup_inv ks0 (insert key K \<union> fst ` set rest) (alter_duplicates rest (ks', reserved'))"
      using "2.IH"(2) [OF False run [symmetric] refl inv'] "2.prems"(2,3) by simp
    with False run show ?thesis by simp
  qed
qed

lemma count_list_two:
  assumes "i < j" and "j < length xs" and "xs ! i = xs ! j"
  shows "2 \<le> count_list xs (xs ! i)"
proof -
  have xs: "xs = take j xs @ xs ! j # drop (Suc j) xs"
    using assms(2) by (rule id_take_nth_drop)
  have "xs ! i \<in> set (take j xs)"
    using assms(1,2) by (auto simp: in_set_conv_nth intro!: exI [of _ i])
  then have "count_list (take j xs) (xs ! i) \<noteq> 0"
    by (simp add: count_list_0_iff)
  then have "1 \<le> count_list (take j xs) (xs ! i)"
    by simp
  moreover have "count_list xs (xs ! i)
      = count_list (take j xs) (xs ! i) + count_list (xs ! j # drop (Suc j) xs) (xs ! i)"
    by (subst xs) (simp only: count_list_append)
  ultimately show ?thesis
    using assms(3) by simp
qed

lemma distinct_remdups_adj_sorted: "sorted xs \<Longrightarrow> distinct (remdups_adj xs)"
  by (induction xs rule: remdups_adj.induct) auto

lemma unique_counts_props:
  "fst ` set (unique_counts ks) = set ks"
  "\<forall>kc \<in> set (unique_counts ks). snd kc = count_list ks (fst kc)"
  "distinct (map fst (unique_counts ks))" "sorted (map fst (unique_counts ks))"
proof -
  have m: "map fst (unique_counts ks) = remdups_adj (sort ks)"
    by (simp add: unique_counts_def comp_def)
  show "fst ` set (unique_counts ks) = set ks"
    using m by (metis list.set_map remdups_adj_set set_sort)
  show "\<forall>kc \<in> set (unique_counts ks). snd kc = count_list ks (fst kc)"
    by (auto simp: unique_counts_def)
  show "sorted (map fst (unique_counts ks))"
    by (simp add: m sorted_remdups_adj)
  show "distinct (map fst (unique_counts ks))"
    by (simp add: m distinct_remdups_adj_sorted)
qed

lemma dedup_inv_initial:
  "dedup_inv ks {k. count_list ks k = 1}
     (ks, map fst (filter (\<lambda>(key, count). count = 1) (unique_counts ks)))"
proof -
  let ?reserved = "map fst (filter (\<lambda>(key, count). count = 1) (unique_counts ks))"
  have r: "set ?reserved = {k. count_list ks k = 1}"
  proof -
    have "set ?reserved = {k \<in> set ks. count_list ks k = 1}"
      by (force simp: unique_counts_def)
    also have "\<dots> = {k. count_list ks k = 1}"
      using count_notin [of _ ks] by fastforce
    finally show ?thesis .
  qed
  have inj: "inj_on (\<lambda>i. ks ! i) {i. i < length ks \<and> ks ! i \<in> {k. count_list ks k = 1}}"
  proof (rule inj_onI)
    fix i j
    assume i: "i \<in> {i. i < length ks \<and> ks ! i \<in> {k. count_list ks k = 1}}"
      and j: "j \<in> {i. i < length ks \<and> ks ! i \<in> {k. count_list ks k = 1}}"
      and e: "ks ! i = ks ! j"
    show "i = j"
    proof (rule ccontr)
      assume "i \<noteq> j"
      then consider "i < j" | "j < i" by linarith
      then have "2 \<le> count_list ks (ks ! i)"
      proof cases
        case 1
        with j e show ?thesis by (intro count_list_two) auto
      next
        case 2
        with i e count_list_two [of j i ks] show ?thesis by auto
      qed
      with i show False by simp
    qed
  qed
  show ?thesis
    unfolding dedup_inv_def settled_def using r inj by auto
qed

lemma unique_keys_inv:
  "dedup_inv ks UNIV (alter_duplicates (unique_counts ks)
     (ks, map fst (filter (\<lambda>(key, count). count = 1) (unique_counts ks))))"
proof -
  let ?K = "{k. count_list ks k = 1}"
  have "dedup_inv ks (?K \<union> fst ` set (unique_counts ks)) (alter_duplicates (unique_counts ks)
     (ks, map fst (filter (\<lambda>(key, count). count = 1) (unique_counts ks))))"
    by (rule alter_duplicates_inv [OF dedup_inv_initial unique_counts_props(2)]) simp
  then show ?thesis
    unfolding dedup_inv_def settled_def
    by (auto simp: unique_counts_props(1) split: prod.splits) (metis (mono_tags, lifting) inj_on_def mem_Collect_eq nth_mem UnCI)+
qed

lemma length_unique_keys: "length (unique_keys ks) = length ks"
  using unique_keys_inv [of ks]
  by (auto simp: unique_keys_def Let_def dedup_inv_def split: prod.splits)

lemma distinct_unique_keys: "distinct (unique_keys ks)"
  using unique_keys_inv [of ks]
  by (auto simp: unique_keys_def Let_def dedup_inv_def settled_def distinct_conv_nth inj_on_def split: prod.splits)

lemma unique_keys_single:
  "i < length ks \<Longrightarrow> count_list ks (ks ! i) = 1 \<Longrightarrow> unique_keys ks ! i = ks ! i"
  using unique_keys_inv [of ks]
  by (auto simp: unique_keys_def Let_def dedup_inv_def split: prod.splits)

lemma key_suffix_not_key: "key_suffix key n \<noteq> key"
  by (simp add: key_suffix_def)

lemma rename_at_reserved:
  assumes "rename_at key is (ks, reserved, suffix) = (ks', reserved', suffix')"
    and "distinct is" and "\<forall>i \<in> set is. ks ! i = key" and "\<forall>i \<in> set is. i < length ks"
  shows "set reserved' = set reserved \<union> {ks' ! i |i. i \<in> set is}"
  using assms
proof (induction "is" arbitrary: ks reserved suffix)
  case Nil
  then show ?case by simp
next
  case (Cons i "is")
  have out: "\<And>ks1 r1 s1. rename_at key is (ks1, r1, s1) = (ks', reserved', suffix')
      \<Longrightarrow> length ks1 = length ks \<Longrightarrow> \<forall>j \<in> set is. ks1 ! j = key \<Longrightarrow> ks' ! i = ks1 ! i"
  proof -
    fix ks1 r1 s1
    assume run: "rename_at key is (ks1, r1, s1) = (ks', reserved', suffix')"
      and l: "length ks1 = length ks" and k: "\<forall>j \<in> set is. ks1 ! j = key"
    have "settled {} ks1 r1" by (simp add: settled_def)
    from rename_at_settled [OF run this] Cons.prems(2,4) l k
    show "ks' ! i = ks1 ! i" by auto
  qed
  have split: "{ks' ! j |j. j \<in> set (i # is)} = insert (ks' ! i) {ks' ! j |j. j \<in> set is}"
    by auto
  show ?case
  proof (cases "key \<in> set reserved")
    case False
    with Cons.prems(1) have run: "rename_at key is (ks, key # reserved, suffix) = (ks', reserved', suffix')"
      by simp
    have "ks' ! i = key"
      using out [OF run] Cons.prems(3) by simp
    moreover have "set reserved' = set (key # reserved) \<union> {ks' ! j |j. j \<in> set is}"
      using Cons.IH [OF run] Cons.prems(2,3,4) by simp
    ultimately show ?thesis unfolding split by simp
  next
    case True
    let ?n = "next_suffix reserved key suffix"
    let ?new = "key_suffix key ?n"
    from True Cons.prems(1)
    have run: "rename_at key is (ks[i := ?new], ?new # reserved, ?n) = (ks', reserved', suffix')"
      by (simp add: Let_def)
    have rest: "\<forall>j \<in> set is. ks[i := ?new] ! j = key"
    proof
      fix j assume "j \<in> set is"
      with Cons.prems(2) have "j \<noteq> i" by auto
      with \<open>j \<in> set is\<close> Cons.prems(3) show "ks[i := ?new] ! j = key" by simp
    qed
    have "ks' ! i = ?new"
      using out [OF run _ rest] Cons.prems(4) by simp
    moreover have "set reserved' = set (?new # reserved) \<union> {ks' ! j |j. j \<in> set is}"
      using Cons.IH [OF run _ rest] Cons.prems(2,4) by simp
    ultimately show ?thesis unfolding split by simp
  qed
qed

lemma rename_at_names:
  assumes "rename_at key is (ks, reserved, suffix) = (ks', reserved', suffix')"
    and "sorted is" and "distinct is" and "\<forall>i \<in> set is. i < length ks \<and> ks ! i = key"
    and "1 \<le> suffix" and "\<forall>m. 1 \<le> m \<and> m < suffix \<longrightarrow> key_suffix key m \<in> set reserved"
  shows "(key \<notin> set reserved \<and> is \<noteq> [] \<longrightarrow> ks' ! hd is = key)
       \<and> (\<forall>i \<in> set is. key \<in> set reserved \<or> i \<noteq> hd is \<longrightarrow>
            (\<exists>n\<ge>1. ks' ! i = key_suffix key n
               \<and> key_suffix key n \<notin> set reserved \<union> {ks' ! j |j. j \<in> set is \<and> j < i}
               \<and> (\<forall>m. 1 \<le> m \<and> m < n \<longrightarrow>
                     key_suffix key m \<in> set reserved \<union> {ks' ! j |j. j \<in> set is \<and> j < i})))"
  using assms
proof (induction "is" arbitrary: ks reserved suffix)
  case Nil
  then show ?case by simp
next
  case (Cons i "is")
  have lt: "\<forall>j \<in> set is. i < j"
    using Cons.prems(2,3) by (auto simp: order_less_le)
  have out: "\<And>ks1 r1 s1. rename_at key is (ks1, r1, s1) = (ks', reserved', suffix')
      \<Longrightarrow> length ks1 = length ks \<Longrightarrow> \<forall>j \<in> set is. ks1 ! j = key \<Longrightarrow> ks' ! i = ks1 ! i"
  proof -
    fix ks1 r1 s1
    assume run: "rename_at key is (ks1, r1, s1) = (ks', reserved', suffix')"
      and l: "length ks1 = length ks" and k: "\<forall>j \<in> set is. ks1 ! j = key"
    have "settled {} ks1 r1" by (simp add: settled_def)
    from rename_at_settled [OF run this] Cons.prems(3,4) l k
    show "ks' ! i = ks1 ! i" by auto
  qed
  have sets: "\<And>j A. j \<in> set is \<Longrightarrow>
      A \<union> {ks' ! i} \<union> {ks' ! j' |j'. j' \<in> set is \<and> j' < j}
        = A \<union> {ks' ! j' |j'. j' \<in> set (i # is) \<and> j' < j}"
    using lt by auto
  show ?case
  proof (cases "key \<in> set reserved")
    case False
    with Cons.prems(1) have run: "rename_at key is (ks, key # reserved, suffix) = (ks', reserved', suffix')"
      by simp
    have i: "ks' ! i = key"
      using out [OF run] Cons.prems(4) by simp
    have sfx: "\<forall>m. 1 \<le> m \<and> m < suffix \<longrightarrow> key_suffix key m \<in> set (key # reserved)"
      using Cons.prems(6) by simp
    have IH: "\<forall>j \<in> set is. \<exists>n\<ge>1. ks' ! j = key_suffix key n
               \<and> key_suffix key n \<notin> set (key # reserved) \<union> {ks' ! j' |j'. j' \<in> set is \<and> j' < j}
               \<and> (\<forall>m. 1 \<le> m \<and> m < n \<longrightarrow>
                     key_suffix key m \<in> set (key # reserved) \<union> {ks' ! j' |j'. j' \<in> set is \<and> j' < j})"
    proof -
      have sd: "sorted is" "distinct is"
        using Cons.prems(2,3) by simp_all
      have rest: "\<forall>j \<in> set is. j < length ks \<and> ks ! j = key"
        using Cons.prems(4) by simp
      have kr: "key \<in> set (key # reserved)" by simp
      from Cons.IH [OF run sd rest Cons.prems(5) sfx] kr show ?thesis by blast
    qed
    have "\<forall>j \<in> set is. \<exists>n\<ge>1. ks' ! j = key_suffix key n
               \<and> key_suffix key n \<notin> set reserved \<union> {ks' ! j' |j'. j' \<in> set (i # is) \<and> j' < j}
               \<and> (\<forall>m. 1 \<le> m \<and> m < n \<longrightarrow>
                     key_suffix key m \<in> set reserved \<union> {ks' ! j' |j'. j' \<in> set (i # is) \<and> j' < j})"
    proof
      fix j assume j: "j \<in> set is"
      have e: "set (key # reserved) \<union> {ks' ! j' |j'. j' \<in> set is \<and> j' < j}
            = set reserved \<union> {ks' ! j' |j'. j' \<in> set (i # is) \<and> j' < j}"
        using sets [OF j, of "set reserved"] i by auto
      from IH j show "\<exists>n\<ge>1. ks' ! j = key_suffix key n
               \<and> key_suffix key n \<notin> set reserved \<union> {ks' ! j' |j'. j' \<in> set (i # is) \<and> j' < j}
               \<and> (\<forall>m. 1 \<le> m \<and> m < n \<longrightarrow>
                     key_suffix key m \<in> set reserved \<union> {ks' ! j' |j'. j' \<in> set (i # is) \<and> j' < j})"
        unfolding e [symmetric] by blast
    qed
    with i False lt show ?thesis by auto
  next
    case True
    let ?n = "next_suffix reserved key suffix"
    let ?new = "key_suffix key ?n"
    from True Cons.prems(1)
    have run: "rename_at key is (ks[i := ?new], ?new # reserved, ?n) = (ks', reserved', suffix')"
      by (simp add: Let_def)
    have rest: "\<forall>j \<in> set is. j < length (ks[i := ?new]) \<and> ks[i := ?new] ! j = key"
    proof
      fix j assume "j \<in> set is"
      with Cons.prems(3) have "j \<noteq> i" by auto
      with \<open>j \<in> set is\<close> Cons.prems(4)
      show "j < length (ks[i := ?new]) \<and> ks[i := ?new] ! j = key" by simp
    qed
    have sd: "sorted is" "distinct is"
      using Cons.prems(2,3) by simp_all
    have i: "ks' ! i = ?new"
      using out [OF run] rest Cons.prems(4) by simp
    have n1: "1 \<le> ?n"
      using next_suffix_ge [of suffix reserved key] Cons.prems(5) by simp
    have low: "\<forall>m. 1 \<le> m \<and> m < ?n \<longrightarrow> key_suffix key m \<in> set reserved"
    proof (intro allI impI)
      fix m assume m: "1 \<le> m \<and> m < ?n"
      show "key_suffix key m \<in> set reserved"
      proof (cases "m < suffix")
        case True
        with m Cons.prems(6) show ?thesis by simp
      next
        case False
        with m show ?thesis by (intro next_suffix_least [of suffix]) auto
      qed
    qed
    have sfx: "\<forall>m. 1 \<le> m \<and> m < ?n \<longrightarrow> key_suffix key m \<in> set (?new # reserved)"
      using low by simp
    have kr: "key \<in> set (?new # reserved)" using True by simp
    have IH: "\<forall>j \<in> set is. \<exists>n\<ge>1. ks' ! j = key_suffix key n
               \<and> key_suffix key n \<notin> set (?new # reserved) \<union> {ks' ! j' |j'. j' \<in> set is \<and> j' < j}
               \<and> (\<forall>m. 1 \<le> m \<and> m < n \<longrightarrow>
                     key_suffix key m \<in> set (?new # reserved) \<union> {ks' ! j' |j'. j' \<in> set is \<and> j' < j})"
      using Cons.IH [OF run sd rest n1 sfx] kr by blast
    have tail: "\<forall>j \<in> set is. \<exists>n\<ge>1. ks' ! j = key_suffix key n
               \<and> key_suffix key n \<notin> set reserved \<union> {ks' ! j' |j'. j' \<in> set (i # is) \<and> j' < j}
               \<and> (\<forall>m. 1 \<le> m \<and> m < n \<longrightarrow>
                     key_suffix key m \<in> set reserved \<union> {ks' ! j' |j'. j' \<in> set (i # is) \<and> j' < j})"
    proof
      fix j assume j: "j \<in> set is"
      have e: "set (?new # reserved) \<union> {ks' ! j' |j'. j' \<in> set is \<and> j' < j}
            = set reserved \<union> {ks' ! j' |j'. j' \<in> set (i # is) \<and> j' < j}"
        using sets [OF j, of "set reserved"] i by auto
      from IH j show "\<exists>n\<ge>1. ks' ! j = key_suffix key n
               \<and> key_suffix key n \<notin> set reserved \<union> {ks' ! j' |j'. j' \<in> set (i # is) \<and> j' < j}
               \<and> (\<forall>m. 1 \<le> m \<and> m < n \<longrightarrow>
                     key_suffix key m \<in> set reserved \<union> {ks' ! j' |j'. j' \<in> set (i # is) \<and> j' < j})"
        unfolding e [symmetric] by blast
    qed
    have empty: "{ks' ! j' |j'. j' \<in> set (i # is) \<and> j' < i} = {}"
      using lt by auto
    have head: "\<exists>n\<ge>1. ks' ! i = key_suffix key n
               \<and> key_suffix key n \<notin> set reserved \<union> {ks' ! j' |j'. j' \<in> set (i # is) \<and> j' < i}
               \<and> (\<forall>m. 1 \<le> m \<and> m < n \<longrightarrow>
                     key_suffix key m \<in> set reserved \<union> {ks' ! j' |j'. j' \<in> set (i # is) \<and> j' < i})"
      unfolding empty using i n1 low next_suffix_fresh [of key reserved suffix] by auto
    from True head tail show ?thesis by simp
  qed
qed

lemma reserved_before_cong:
  assumes "\<forall>j < length ks. 1 < count_list ks (ks ! j) \<and> (ks ! j < ks ! i \<or> ks ! j = ks ! i \<and> j < i)
             \<longrightarrow> s' ! j = s ! j"
  shows "reserved_before ks s' i = reserved_before ks s i"
proof -
  have "{s' ! j |j. j < length ks \<and> 1 < count_list ks (ks ! j)
                      \<and> (ks ! j < ks ! i \<or> ks ! j = ks ! i \<and> j < i)}
      = {s ! j |j. j < length ks \<and> 1 < count_list ks (ks ! j)
                      \<and> (ks ! j < ks ! i \<or> ks ! j = ks ! i \<and> j < i)}"
    using assms by (intro Collect_cong) metis
  then show ?thesis by (simp add: reserved_before_def)
qed

lemma named_cong:
  assumes "s' ! i = s ! i"
    and "\<forall>j < length ks. 1 < count_list ks (ks ! j) \<and> (ks ! j < ks ! i \<or> ks ! j = ks ! i \<and> j < i)
             \<longrightarrow> s' ! j = s ! j"
  shows "named ks s' i = named ks s i"
  unfolding named_def reserved_before_cong [OF assms(2)] assms(1) by (rule refl)

lemma singles_values:
  assumes "\<forall>i < length ks0. count_list ks0 (ks0 ! i) = 1 \<longrightarrow> ks ! i = ks0 ! i"
  shows "{ks ! i |i. i < length ks0 \<and> count_list ks0 (ks0 ! i) = 1} = {k. count_list ks0 k = 1}"
proof (intro set_eqI iffI)
  fix x assume "x \<in> {ks ! i |i. i < length ks0 \<and> count_list ks0 (ks0 ! i) = 1}"
  with assms show "x \<in> {k. count_list ks0 k = 1}" by auto
next
  fix x assume "x \<in> {k. count_list ks0 k = 1}"
  then have c: "count_list ks0 x = 1" by simp
  then have "x \<in> set ks0" using count_notin [of x ks0] by fastforce
  then obtain i where i: "i < length ks0" "ks0 ! i = x" by (auto simp: in_set_conv_nth)
  with assms c have "ks ! i = x" by auto
  with i c show "x \<in> {ks ! i |i. i < length ks0 \<and> count_list ks0 (ks0 ! i) = 1}"
    by (auto intro!: exI [of _ i])
qed

lemma nc_inv_step:
  assumes inv: "nc_inv ks0 K (ks, reserved)" and nc: "collision_free ks0"
    and dup: "1 < count_list ks0 key" and new: "key \<notin> K"
    and K: "K = {k. count_list ks0 k = 1} \<union> {k. 1 < count_list ks0 k \<and> k < key}"
    and run: "rename_at key (flatnonzero_eq ks key) (ks, reserved, 1) = (ks', reserved', suffix')"
  shows "nc_inv ks0 (insert key K) (ks', reserved')"
proof -
  let ?F = "flatnonzero_eq ks key"
  let ?n = "length ks0"
  from inv have len: "length ks = ?n"
    and res: "set reserved = {ks ! i |i. i < ?n \<and> ks0 ! i \<in> K}"
    and un: "\<forall>i < ?n. ks0 ! i \<notin> K \<longrightarrow> ks ! i = ks0 ! i"
    and sg: "\<forall>i < ?n. count_list ks0 (ks0 ! i) = 1 \<longrightarrow> ks ! i = ks0 ! i"
    and form: "\<forall>i < ?n. ks ! i = ks0 ! i \<or> (\<exists>n. ks ! i = key_suffix (ks0 ! i) n)"
    and nm: "\<forall>i < ?n. ks0 ! i \<in> K \<and> 1 < count_list ks0 (ks0 ! i) \<longrightarrow> named ks0 ks i"
    by (auto simp: nc_inv_def)
  have inK: "\<And>k. k \<in> K \<Longrightarrow> 1 < count_list ks0 k \<Longrightarrow> k < key"
    using K by auto
  have fresh: "key \<notin> set reserved"
  proof
    assume "key \<in> set reserved"
    with res obtain i where i: "i < ?n" "ks0 ! i \<in> K" "ks ! i = key" by auto
    from form i(1) consider "ks ! i = ks0 ! i" | n where "ks ! i = key_suffix (ks0 ! i) n" by blast
    then show False
    proof cases
      case 1
      with i new show False by simp
    next
      case 2
      have "ks0 ! i \<in> set ks0" using i(1) by simp
      then have "count_list ks0 (ks0 ! i) \<noteq> 0" by (simp add: count_list_0_iff)
      moreover have "count_list ks0 (ks0 ! i) \<noteq> 1"
      proof
        assume "count_list ks0 (ks0 ! i) = 1"
        with sg i(1) have "ks ! i = ks0 ! i" by simp
        with 2 key_suffix_not_key show False by metis
      qed
      ultimately have "1 < count_list ks0 (ks0 ! i)" by simp
      with nc dup 2 i(3) show False by (auto simp: collision_free_def)
    qed
  qed
  have Fset: "set ?F = {i. i < ?n \<and> ks0 ! i = key}"
  proof (intro set_eqI iffI)
    fix i assume "i \<in> set ?F"
    then have i: "i < ?n" "ks ! i = key" using len by (auto simp: flatnonzero_eq_props)
    have "ks0 ! i \<notin> K"
    proof
      assume "ks0 ! i \<in> K"
      with i res have "key \<in> set reserved" by auto
      with fresh show False ..
    qed
    with un i show "i \<in> {i. i < ?n \<and> ks0 ! i = key}" by auto
  next
    fix i assume "i \<in> {i. i < ?n \<and> ks0 ! i = key}"
    with un new len show "i \<in> set ?F" by (auto simp: flatnonzero_eq_props)
  qed
  have F: "\<forall>i \<in> set ?F. i < length ks \<and> ks ! i = key"
    by (simp add: flatnonzero_eq_props)
  have st0: "settled {} ks reserved" by (simp add: settled_def)
  from rename_at_settled [OF run st0 flatnonzero_eq_props(1) F]
  have len': "length ks' = length ks" and out: "\<forall>j. j \<notin> set ?F \<longrightarrow> ks' ! j = ks ! j"
    by auto
  have res': "set reserved' = set reserved \<union> {ks' ! i |i. i \<in> set ?F}"
    using rename_at_reserved [OF run flatnonzero_eq_props(1)] F by simp
  have names: "(?F \<noteq> [] \<longrightarrow> ks' ! hd ?F = key)
       \<and> (\<forall>i \<in> set ?F. i \<noteq> hd ?F \<longrightarrow>
            (\<exists>n\<ge>1. ks' ! i = key_suffix key n
               \<and> key_suffix key n \<notin> set reserved \<union> {ks' ! j |j. j \<in> set ?F \<and> j < i}
               \<and> (\<forall>m. 1 \<le> m \<and> m < n \<longrightarrow>
                     key_suffix key m \<in> set reserved \<union> {ks' ! j |j. j \<in> set ?F \<and> j < i})))"
    using rename_at_names [OF run flatnonzero_eq_props(2,1) F] fresh by simp
  have hd_first: "\<And>i. i \<in> set ?F \<Longrightarrow> (i = hd ?F) = (\<forall>j < i. ks0 ! j \<noteq> ks0 ! i)"
  proof -
    fix i assume i: "i \<in> set ?F"
    then have ne: "?F \<noteq> []" by auto
    have hdF: "hd ?F \<in> set ?F" using ne by simp
    have least: "\<forall>j \<in> set ?F. hd ?F \<le> j"
      using flatnonzero_eq_props(2) [of ks key] ne by (cases ?F) auto
    show "(i = hd ?F) = (\<forall>j < i. ks0 ! j \<noteq> ks0 ! i)"
    proof
      assume h: "i = hd ?F"
      show "\<forall>j < i. ks0 ! j \<noteq> ks0 ! i"
      proof (intro allI impI notI)
        fix j assume j: "j < i" "ks0 ! j = ks0 ! i"
        from i Fset have "i < ?n" "ks0 ! i = key" by auto
        with j have "j \<in> set ?F" unfolding Fset by simp
        with least have "hd ?F \<le> j" by simp
        with h j(1) show False by simp
      qed
    next
      assume a: "\<forall>j < i. ks0 ! j \<noteq> ks0 ! i"
      from hdF Fset i have "ks0 ! hd ?F = ks0 ! i" by auto
      with a have "\<not> hd ?F < i" by auto
      with least i show "i = hd ?F" by fastforce
    qed
  qed
  have frozen: "\<forall>j < ?n. ks0 ! j \<noteq> key \<longrightarrow> ks' ! j = ks ! j"
    using out Fset by auto
  have un': "\<forall>i < ?n. ks0 ! i \<notin> insert key K \<longrightarrow> ks' ! i = ks0 ! i"
    using un frozen by auto
  have sg': "\<forall>i < ?n. count_list ks0 (ks0 ! i) = 1 \<longrightarrow> ks' ! i = ks0 ! i"
    using sg frozen dup by auto
  have rb: "\<And>i. i < ?n \<Longrightarrow> ks0 ! i = key \<Longrightarrow>
      reserved_before ks0 ks' i = set reserved \<union> {ks' ! j |j. j \<in> set ?F \<and> j < i}"
  proof -
    fix i assume i: "i < ?n" "ks0 ! i = key"
    have a: "set reserved = {k. count_list ks0 k = 1}
        \<union> {ks' ! j |j. j < ?n \<and> 1 < count_list ks0 (ks0 ! j) \<and> ks0 ! j < key}"
    proof -
      have "set reserved = {ks ! j |j. j < ?n \<and> count_list ks0 (ks0 ! j) = 1}
          \<union> {ks ! j |j. j < ?n \<and> 1 < count_list ks0 (ks0 ! j) \<and> ks0 ! j < key}"
        unfolding res K by auto
      also have "{ks ! j |j. j < ?n \<and> 1 < count_list ks0 (ks0 ! j) \<and> ks0 ! j < key}
          = {ks' ! j |j. j < ?n \<and> 1 < count_list ks0 (ks0 ! j) \<and> ks0 ! j < key}"
        using frozen by (intro Collect_cong) (metis order_less_irrefl)
      finally show ?thesis
        by (simp only: singles_values [OF sg])
    qed
    have b: "{ks' ! j |j. j \<in> set ?F \<and> j < i}
        = {ks' ! j |j. j < ?n \<and> 1 < count_list ks0 (ks0 ! j) \<and> ks0 ! j = key \<and> j < i}"
      using Fset dup by auto
    show "reserved_before ks0 ks' i = set reserved \<union> {ks' ! j |j. j \<in> set ?F \<and> j < i}"
      unfolding a b reserved_before_def i(2) by auto
  qed
  have nm_new: "\<forall>i < ?n. ks0 ! i = key \<longrightarrow> named ks0 ks' i"
  proof (intro allI impI)
    fix i assume i: "i < ?n" "ks0 ! i = key"
    then have iF: "i \<in> set ?F" using Fset by simp
    show "named ks0 ks' i"
    proof (cases "i = hd ?F")
      case True
      with names iF have "ks' ! i = key" by auto
      with True hd_first [OF iF] i show ?thesis by (simp add: named_def)
    next
      case False
      with names iF obtain n where n: "1 \<le> n" "ks' ! i = key_suffix key n"
        "key_suffix key n \<notin> set reserved \<union> {ks' ! j |j. j \<in> set ?F \<and> j < i}"
        "\<forall>m. 1 \<le> m \<and> m < n \<longrightarrow>
                     key_suffix key m \<in> set reserved \<union> {ks' ! j |j. j \<in> set ?F \<and> j < i}"
        by blast
      from False hd_first [OF iF] have nf: "\<not> (\<forall>j < i. ks0 ! j \<noteq> ks0 ! i)" by simp
      show ?thesis
        unfolding named_def rb [OF i] using nf n i(2) by auto
    qed
  qed
  have nm_old: "\<forall>i < ?n. ks0 ! i \<in> K \<and> 1 < count_list ks0 (ks0 ! i) \<longrightarrow> named ks0 ks' i"
  proof (intro allI impI)
    fix i assume i: "i < ?n" "ks0 ! i \<in> K \<and> 1 < count_list ks0 (ks0 ! i)"
    then have lt: "ks0 ! i < key" using inK by simp
    have 1: "ks' ! i = ks ! i" using frozen i(1) lt by auto
    have 2: "\<forall>j < length ks0. 1 < count_list ks0 (ks0 ! j)
          \<and> (ks0 ! j < ks0 ! i \<or> ks0 ! j = ks0 ! i \<and> j < i) \<longrightarrow> ks' ! j = ks ! j"
      using frozen lt by auto
    from nm i have "named ks0 ks i" by simp
    then show "named ks0 ks' i"
      by (simp add: named_cong [OF 1 2])
  qed
  have nm': "\<forall>i < ?n. ks0 ! i \<in> insert key K \<and> 1 < count_list ks0 (ks0 ! i) \<longrightarrow> named ks0 ks' i"
    using nm_new nm_old by auto
  have form': "\<forall>i < ?n. ks' ! i = ks0 ! i \<or> (\<exists>n. ks' ! i = key_suffix (ks0 ! i) n)"
  proof (intro allI impI)
    fix i assume i: "i < ?n"
    show "ks' ! i = ks0 ! i \<or> (\<exists>n. ks' ! i = key_suffix (ks0 ! i) n)"
    proof (cases "ks0 ! i = key")
      case False
      with frozen form i show ?thesis by simp
    next
      case True
      with i have iF: "i \<in> set ?F" using Fset by simp
      show ?thesis
      proof (cases "i = hd ?F")
        case h: True
        with names iF True show ?thesis by auto
      next
        case False
        with names iF True show ?thesis by auto
      qed
    qed
  qed
  have res'': "set reserved' = {ks' ! i |i. i < ?n \<and> ks0 ! i \<in> insert key K}"
  proof -
    have "{ks ! i |i. i < ?n \<and> ks0 ! i \<in> K} = {ks' ! i |i. i < ?n \<and> ks0 ! i \<in> K}"
      using frozen new by (intro Collect_cong) metis
    then show ?thesis
      unfolding res' res Fset by auto
  qed
  from len len' res'' un' sg' form' nm' show ?thesis
    by (simp add: nc_inv_def)
qed

lemma alter_duplicates_nc:
  assumes "nc_inv ks0 K st" and "collision_free ks0"
    and "sorted_wrt (<) (map fst kcs)"
    and "\<forall>kc \<in> set kcs. snd kc = count_list ks0 (fst kc) \<and> fst kc \<in> set ks0"
    and "\<forall>k. count_list ks0 k = 1 \<longrightarrow> k \<in> K"
    and "\<forall>k \<in> K. 1 \<le> count_list ks0 k"
    and "\<forall>k. 1 < count_list ks0 k \<longrightarrow> (k \<in> K) = (k \<notin> fst ` set kcs)"
    and "\<forall>k \<in> K. 1 < count_list ks0 k \<longrightarrow> (\<forall>k' \<in> fst ` set kcs. k < k')"
  shows "nc_inv ks0 (K \<union> fst ` set kcs) (alter_duplicates kcs st)"
  using assms
proof (induction kcs st arbitrary: K rule: alter_duplicates.induct)
  case (1 st)
  then show ?case by simp
next
  case (2 key count rest ks reserved)
  have cnt: "count = count_list ks0 key" and mem: "key \<in> set ks0"
    using "2.prems"(4) by auto
  have above: "\<forall>k' \<in> fst ` set rest. key < k'"
    using "2.prems"(3) by auto
  have srt: "sorted_wrt (<) (map fst rest)"
    using "2.prems"(3) by simp
  have cs: "\<forall>kc \<in> set rest. snd kc = count_list ks0 (fst kc) \<and> fst kc \<in> set ks0"
    using "2.prems"(4) by simp
  have notrest: "key \<notin> fst ` set rest"
    using above by auto
  show ?case
  proof (cases "count = 1")
    case True
    with cnt "2.prems"(5) have kK: "key \<in> K" by simp
    then have e: "K \<union> fst ` set ((key, count) # rest) = K \<union> fst ` set rest" by auto
    have p7: "\<forall>k. 1 < count_list ks0 k \<longrightarrow> (k \<in> K) = (k \<notin> fst ` set rest)"
      using "2.prems"(7) True cnt by auto
    have p8: "\<forall>k \<in> K. 1 < count_list ks0 k \<longrightarrow> (\<forall>k' \<in> fst ` set rest. k < k')"
      using "2.prems"(8) by auto
    from "2.IH"(1) [OF True "2.prems"(1,2) srt cs "2.prems"(5,6) p7 p8] True
    show ?thesis unfolding e by simp
  next
    case False
    have "count_list ks0 key \<noteq> 0"
      using mem by (simp add: count_list_0_iff)
    with False cnt have dup: "1 < count_list ks0 key" by simp
    have new: "key \<notin> K"
      using "2.prems"(7) dup by auto
    have K: "K = {k. count_list ks0 k = 1} \<union> {k. 1 < count_list ks0 k \<and> k < key}"
    proof (intro set_eqI iffI)
      fix k assume k: "k \<in> K"
      show "k \<in> {k. count_list ks0 k = 1} \<union> {k. 1 < count_list ks0 k \<and> k < key}"
      proof (cases "count_list ks0 k = 1")
        case True
        then show ?thesis by simp
      next
        case False
        with "2.prems"(6) k have "1 < count_list ks0 k" by fastforce
        with "2.prems"(8) k show ?thesis by auto
      qed
    next
      fix k assume k: "k \<in> {k. count_list ks0 k = 1} \<union> {k. 1 < count_list ks0 k \<and> k < key}"
      show "k \<in> K"
      proof (cases "count_list ks0 k = 1")
        case True
        with "2.prems"(5) show ?thesis by simp
      next
        case False
        with k have d: "1 < count_list ks0 k" and lt: "k < key" by auto
        have "k \<notin> fst ` set ((key, count) # rest)"
          using lt above by auto
        with "2.prems"(7) d show ?thesis by blast
      qed
    qed
    obtain ks' reserved' suffix' where
      run: "rename_at key (flatnonzero_eq ks key) (ks, reserved, 1) = (ks', reserved', suffix')"
      by (cases "rename_at key (flatnonzero_eq ks key) (ks, reserved, 1)") auto
    have inv': "nc_inv ks0 (insert key K) (ks', reserved')"
      using nc_inv_step [OF "2.prems"(1,2) dup new K run] .
    have p5: "\<forall>k. count_list ks0 k = 1 \<longrightarrow> k \<in> insert key K"
      using "2.prems"(5) by simp
    have p6: "\<forall>k \<in> insert key K. 1 \<le> count_list ks0 k"
      using "2.prems"(6) dup by simp
    have p7: "\<forall>k. 1 < count_list ks0 k \<longrightarrow> (k \<in> insert key K) = (k \<notin> fst ` set rest)"
      using "2.prems"(7) notrest by auto
    have p8: "\<forall>k \<in> insert key K. 1 < count_list ks0 k \<longrightarrow> (\<forall>k' \<in> fst ` set rest. k < k')"
      using "2.prems"(8) above by auto
    have "nc_inv ks0 (insert key K \<union> fst ` set rest) (alter_duplicates rest (ks', reserved'))"
      using "2.IH"(2) [OF False run [symmetric] refl inv' "2.prems"(2) srt cs p5 p6 p7 p8] .
    with False run show ?thesis by simp
  qed
qed

lemma nc_inv_initial:
  "nc_inv ks {k. count_list ks k = 1}
     (ks, map fst (filter (\<lambda>(key, count). count = 1) (unique_counts ks)))"
proof -
  let ?reserved = "map fst (filter (\<lambda>(key, count). count = 1) (unique_counts ks))"
  have "set ?reserved = {k \<in> set ks. count_list ks k = 1}"
    by (force simp: unique_counts_def)
  also have "\<dots> = {k. count_list ks k = 1}"
    using count_notin [of _ ks] by fastforce
  also have "\<dots> = {ks ! i |i. i < length ks \<and> count_list ks (ks ! i) = 1}"
    by (rule singles_values [symmetric]) simp
  finally have r: "set ?reserved = {ks ! i |i. i < length ks \<and> ks ! i \<in> {k. count_list ks k = 1}}"
    by simp
  show ?thesis
    unfolding nc_inv_def using r by auto
qed

lemma strict_sorted_unique_counts: "sorted_wrt (<) (map fst (unique_counts ks))"
  using unique_counts_props(3,4) [of ks] by (simp add: strict_sorted_iff)

lemma unique_keys_named:
  assumes "collision_free ks" and "i < length ks" and "1 < count_list ks (ks ! i)"
  shows "named ks (unique_keys ks) i"
proof -
  let ?K = "{k. count_list ks k = 1}"
  let ?kcs = "unique_counts ks"
  let ?st = "(ks, map fst (filter (\<lambda>(key, count). count = 1) ?kcs))"
  have p4: "\<forall>kc \<in> set ?kcs. snd kc = count_list ks (fst kc) \<and> fst kc \<in> set ks"
    using unique_counts_props(1,2) [of ks] by auto
  have p7: "\<forall>k. 1 < count_list ks k \<longrightarrow> (k \<in> ?K) = (k \<notin> fst ` set ?kcs)"
  proof (intro allI impI)
    fix k assume k: "1 < count_list ks k"
    then have "k \<in> set ks" using count_notin [of k ks] by fastforce
    with k show "(k \<in> ?K) = (k \<notin> fst ` set ?kcs)"
      by (simp add: unique_counts_props(1))
  qed
  have "nc_inv ks (?K \<union> fst ` set ?kcs) (alter_duplicates ?kcs ?st)"
    by (rule alter_duplicates_nc [OF nc_inv_initial assms(1) strict_sorted_unique_counts p4 _ _ p7])
       auto
  then have "\<forall>i < length ks. ks ! i \<in> ?K \<union> fst ` set ?kcs \<and> 1 < count_list ks (ks ! i)
      \<longrightarrow> named ks (fst (alter_duplicates ?kcs ?st)) i"
    by (auto simp: nc_inv_def split: prod.splits)
  with assms(2,3) show ?thesis
    by (simp add: unique_keys_def Let_def unique_counts_props(1))
qed

lemma setitem_name_keys:
  assumes "setitem (Single (PyStr k)) v (h, t) = (Inr u, h', t')"
  shows "keys t' = (if k \<in> set (keys t) then keys t else keys t @ [k])"
  using assms
proof (cases rule: setitem_name_cases)
  case (raised e)
  then show ?thesis by simp
next
  case (stored arr)
  then show ?thesis by (simp add: keys_def keys_odict_set)
qed

lemma store_columns_keys:
  "store_columns items (h, t) = (Inr t', h') \<Longrightarrow> distinct (keys t @ map fst items)
     \<Longrightarrow> keys t' = keys t @ map fst items"
proof (induction items arbitrary: h t)
  case Nil
  then show ?case by simp
next
  case (Cons item items)
  obtain key v where item: "item = (key, v)" by (cases item)
  obtain r h1 t1 where step: "setitem (Single (PyStr key)) v (h, t) = (r, h1, t1)"
    by (cases "setitem (Single (PyStr key)) v (h, t)") auto
  with Cons.prems(1) item obtain u where r: "r = Inr u"
    and run: "store_columns items (h1, t1) = (Inr t', h')"
    by (cases r) auto
  have k1: "keys t1 = keys t @ [key]"
    using setitem_name_keys [OF step [unfolded r]] Cons.prems(2) item by simp
  have "distinct (keys t1 @ map fst items)"
    using Cons.prems(2) item k1 by simp
  from Cons.IH [OF run this] k1 item show ?case by simp
qed

lemma Table_keys:
  assumes "Table data index h = (Inr t, h')"
  shows "keys t = unique_keys (source_names data index)"
proof (cases "data = NoData")
  case True
  with assms show ?thesis
    by (auto simp: Table_def source_names_def source_columns_def empty_table_def keys_def
        unique_keys_def unique_counts_def)
next
  case False
  then have T: "Table data index h =
     (case source_columns data index of
        Inl e \<Rightarrow> (Inl e, h)
      | Inr items \<Rightarrow> store_columns (zip (unique_keys (map fst items)) (map snd items)) (h, empty_table))"
    by (cases data) (simp_all add: Table_def)
  from assms T obtain items where items: "source_columns data index = Inr items"
    and run: "store_columns (zip (unique_keys (map fst items)) (map snd items)) (h, empty_table) = (Inr t, h')"
    by (cases "source_columns data index") auto
  have f: "map fst (zip (unique_keys (map fst items)) (map snd items)) = unique_keys (map fst items)"
    by (simp add: length_unique_keys)
  have "keys t = keys empty_table @ unique_keys (map fst items)"
    using store_columns_keys [OF run] by (simp add: f distinct_unique_keys empty_table_def keys_def)
  then show ?thesis
    by (simp add: source_names_def items empty_table_def keys_def)
qed

lemma collision_free_single_base:
  assumes "\<forall>k. 1 < count_list ks k \<longrightarrow> k = b"
  shows "collision_free ks"
  unfolding collision_free_def using assms key_suffix_not_key by metis

section \<open>Lemmas: the names of a Table that a read returns\<close>

lemma select_columns_names:
  "select_columns sel cols names h = (Inr items, h') \<Longrightarrow> map fst items = names"
proof (induction names arbitrary: h items)
  case Nil
  then show ?case by simp
next
  case (Cons name names)
  from Cons.prems obtain a v h1 rest where
    "odict_get cols name = Inr a" "sel a h = (Inr v, h1)"
    "select_columns sel cols names h1 = (Inr rest, h')" "items = (name, v) # rest"
    by (auto split: sum.splits prod.splits)
  with Cons.IH show ?case by auto
qed

lemma new_table_keys:
  assumes "new_table sel names (h, t) = (Inr (SubTable u), h')"
  shows "keys u = unique_keys names"
proof -
  from assms obtain items h1 where
    sel: "select_columns sel (columns t) names h = (Inr items, h1)"
    and tab: "Table (Sequence items) IndexFalse h1 = (Inr u, h')"
    by (auto simp: new_table_def split: sum.splits prod.splits)
  have "source_names (Sequence items) IndexFalse = names"
    using select_columns_names [OF sel] by (simp add: source_names_def source_columns_def)
  with Table_keys [OF tab] show ?thesis by simp
qed

lemma select_table_keys:
  assumes "select_table rs cs (h, t) = (Inr (SubTable u), h')" and "column_names cs = Inr names"
  shows "keys u = unique_keys names"
  using assms
  by (auto simp: select_table_def split: if_splits dest: new_table_keys)

lemma getitem_all_columns:
  assumes "getitem index (h, t) = (Inr (SubTable u), h')" and "all_columns index"
  shows "keys u = unique_keys (keys t)"
proof -
  from assms(2) obtain x where x: "index = Single x" "x \<noteq> PyNone" "\<not> is_str x"
    by (auto simp: all_columns_def is_str_def split: pyindex.splits pyatom.splits)
  have cn: "column_names (PyStrList (keys t)) = Inr (keys t)"
    by (simp add: column_names_def)
  from assms x show ?thesis
    by (cases x)
       (auto simp: getitem_def column_request_def all_columns_def
          split: if_splits dest: select_table_keys [OF _ cn] new_table_keys)
qed

lemma getitem_explicit_columns:
  assumes "getitem index (h, t) = (Inr (SubTable u), h')" and "explicit_columns index = Some names"
  shows "keys u = unique_keys names"
proof (cases index)
  case (Single x)
  with assms(2) have x: "x = PyStrList names" "names \<noteq> []"
    by (auto simp: explicit_columns_def split: pyatom.splits if_splits)
  have cn: "column_names (PyStrList names) = Inr names"
    by (simp add: column_names_def)
  from assms(1) Single x show ?thesis
    by (auto simp: getitem_def column_request_def dest: select_table_keys [OF _ cn])
next
  case (PyTuple xs)
  with assms(2) obtain rows cols rest where xs: "xs = rows # cols # rest"
    and cols: "cols = PyStrList names \<or> (\<exists>name. cols = PyStr name \<and> names = [name])"
    by (auto simp: explicit_columns_def split: list.splits pyatom.splits)
  have cn: "column_names (PyStrList names) = Inr names"
    by (simp add: column_names_def)
  have sel: "\<exists>rs. select_table rs (PyStrList names) (h, t) = (Inr (SubTable u), h')"
  proof (cases rows)
    case (PyStr s)
    with assms(1) PyTuple xs cols show ?thesis
      by (auto simp: getitem_def column_request_def tuple_item_def split: sum.splits prod.splits)
  qed (use assms(1) PyTuple xs cols in
        \<open>auto simp: getitem_def column_request_def tuple_item_def\<close>)
  then show ?thesis
    using select_table_keys [OF _ cn] by blast
qed

section \<open>Lemmas: what an assignment leaves alone in the store\<close>










section \<open>Lemmas: loading and converting columns\<close>

lemma elems_alloc: "alloc xs h = (b, h') \<Longrightarrow> elems h' b = xs"
  by (auto simp: alloc_def elems_def intro: nth_equalityI)

lemma wf_table_append: "wf_table h t \<Longrightarrow> wf_table (h @ h2) t"
  by (auto simp: wf_table_def nth_append)

lemma shape_append_column:
  "columns t \<noteq> [] \<Longrightarrow> fst (shape (t\<lparr>columns := columns t @ cs\<rparr>)) = fst (shape t)"
  by (cases "columns t") (auto simp: shape_def)

lemma setitem_seq_new:
  assumes wf: "wf_table h t" and inv: "table_inv t" and new: "k \<notin> set (keys t)"
    and len: "columns t \<noteq> [] \<longrightarrow> fst (shape t) = length vs"
  shows "\<exists>t' h'. setitem (Single (PyStr k)) (PySeq vs) (h, t) = (Inr (), h', t')
           \<and> wf_table h' t' \<and> table_inv t' \<and> keys t' = keys t @ [k]
           \<and> table_values h' t' = table_values h t @ [(k, vs)]
           \<and> fst (shape t') = length vs"
proof -
  let ?b = "NDArray (length h) [0..<length vs]"
  let ?t = "t\<lparr>columns := columns t @ [(k, ?b)]\<rparr>"
  have chk: "check_shapes (values_of t) ?b = None"
    using inv len by (cases "columns t") (auto simp: check_shapes_None table_inv_def values_of_def)
  have new': "k \<notin> fst ` set (columns t)"
    using new by (simp add: keys_def)
  have set: "setitem (Single (PyStr k)) (PySeq vs) (h, t) = (Inr (), h @ [vs], ?t)"
    using chk by (simp add: setitem_def ma_array_def alloc_def ndim_def odict_set_new [OF new'])
  have wf': "wf_table (h @ [vs]) ?t"
    using wf_table_append [OF wf, of "[vs]"] by (auto simp: wf_table_def values_of_def)
  have inv': "table_inv ?t"
    using setitem_inv [OF set inv] .
  have e: "elems (h @ [vs]) ?b = vs"
    by (rule elems_alloc [of vs h]) (simp add: alloc_def)
  have vals: "table_values (h @ [vs]) ?t = table_values h t @ [(k, vs)]"
    using table_values_append [OF wf, of "[vs]"] e by (simp add: table_values_def)
  have shp: "fst (shape ?t) = length vs"
    using len by (cases "columns t") (auto simp: shape_def)
  from set wf' inv' vals shp show ?thesis
    by (auto simp: keys_def)
qed

lemma store_columns_seqs:
  assumes "wf_table h t" and "table_inv t" and "distinct (keys t @ map fst kvs)"
    and "\<forall>vs \<in> snd ` set kvs. length vs = m" and "columns t \<noteq> [] \<longrightarrow> fst (shape t) = m"
  shows "\<exists>t' h'. store_columns (map (\<lambda>(k, vs). (k, PySeq vs)) kvs) (h, t) = (Inr t', h')
           \<and> wf_table h' t' \<and> table_inv t' \<and> table_values h' t' = table_values h t @ kvs"
  using assms
proof (induction kvs arbitrary: h t)
  case Nil
  then show ?case by simp
next
  case (Cons kv kvs)
  obtain k vs where kv: "kv = (k, vs)" by (cases kv)
  have m: "length vs = m" using Cons.prems(4) kv by simp
  have new: "k \<notin> set (keys t)" using Cons.prems(3) kv by auto
  have len: "columns t \<noteq> [] \<longrightarrow> fst (shape t) = length vs"
    using Cons.prems(5) m by simp
  from setitem_seq_new [OF Cons.prems(1,2) new len]
  obtain t1 h1 where set: "setitem (Single (PyStr k)) (PySeq vs) (h, t) = (Inr (), h1, t1)"
    and wf1: "wf_table h1 t1" and inv1: "table_inv t1" and k1: "keys t1 = keys t @ [k]"
    and v1: "table_values h1 t1 = table_values h t @ [(k, vs)]" and s1: "fst (shape t1) = length vs"
    by auto
  have d1: "distinct (keys t1 @ map fst kvs)"
    using Cons.prems(3) kv k1 by simp
  have l1: "\<forall>vs \<in> snd ` set kvs. length vs = m"
    using Cons.prems(4) by simp
  have sh1: "columns t1 \<noteq> [] \<longrightarrow> fst (shape t1) = m"
    using s1 m by simp
  from Cons.IH [OF wf1 inv1 d1 l1 sh1]
  obtain t' h' where "store_columns (map (\<lambda>(k, vs). (k, PySeq vs)) kvs) (h1, t1) = (Inr t', h')"
    "wf_table h' t'" "table_inv t'" "table_values h' t' = table_values h1 t1 @ kvs"
    by blast
  with set kv v1 show ?case by simp
qed

lemma slice_indices_all: "slice_indices None None None n = Inr [0..<n]"
proof -
  have "map nat (map (\<lambda>k. int k) [0..<n]) = [0..<n]"
    by (simp add: map_idI)
  then show ?thesis
    by (simp add: slice_indices_def py_range_def)
qed

lemma view_all: "view a [0..<length (pos a)] = a"
  by (cases a) (simp add: view_def map_nth)

lemma getitem_name:
  assumes "map_of (columns t) name = Some a"
  shows "getitem (Single (PyStr name)) (h, t) = (Inr (Value (PyArray a)), h)"
  using assms
  by (simp add: getitem_def column_request_def odict_get_def np_getitem_def slice_indices_all view_all)

lemma astype_float_length: "astype_float parse xs = Inr ys \<Longrightarrow> length ys = length xs"
  by (induction xs arbitrary: ys) (auto split: option.splits sum.splits)

lemma map_odict_set:
  "distinct (map fst kvs) \<Longrightarrow> (k, a) \<in> set kvs \<Longrightarrow>
     map f (odict_set k b kvs) = map (\<lambda>kv. if fst kv = k then f (k, b) else f kv) kvs"
proof (induction kvs)
  case Nil
  then show ?case by simp
next
  case (Cons kv kvs)
  show ?case
  proof (cases "fst kv = k")
    case True
    with Cons.prems(1) have "k \<notin> fst ` set kvs" by simp
    then have "\<forall>kv' \<in> set kvs. fst kv' \<noteq> k" by (auto simp: image_iff)
    then have "map f kvs = map (\<lambda>kv. if fst kv = k then f (k, b) else f kv) kvs"
      by (intro map_cong) auto
    with True show ?thesis by (cases kv) simp
  next
    case False
    with Cons show ?thesis by (cases kv) auto
  qed
qed

lemma convert_column_values:
  assumes wf: "wf_table h t" and inv: "table_inv t" and name: "name \<in> set (keys t)"
  shows "\<exists>h' t'. convert_column parse name (h, t) = (h', t') \<and> wf_table h' t' \<and> table_inv t'
           \<and> keys t' = keys t
           \<and> table_values h' t'
               = map (\<lambda>kv. if fst kv = name then (name, converted parse (snd kv)) else kv)
                   (table_values h t)"
proof -
  have d: "distinct (map fst (columns t))"
    using inv by (simp add: table_inv_def keys_def)
  from name obtain a where a: "(name, a) \<in> set (columns t)"
    by (auto simp: keys_def)
  with d have m: "map_of (columns t) name = Some a" by simp
  have get: "getitem (Single (PyStr name)) (h, t) = (Inr (Value (PyArray a)), h)"
    using getitem_name [OF m] .
  have tv: "table_values h t = map (\<lambda>kv. (fst kv, elems h (snd kv))) (columns t)"
    by (simp add: table_values_def case_prod_unfold)
  show ?thesis
  proof (cases "astype_float parse (elems h a)")
    case (Inl e)
    then have c: "convert_column parse name (h, t) = (h, t)"
      by (simp add: convert_column_def get)
    have "\<forall>kv \<in> set (columns t). fst kv = name \<longrightarrow> snd kv = a"
      using d a by (auto simp: eq_key_imp_eq_value)
    then have "map (\<lambda>kv. if fst kv = name then (name, converted parse (snd kv)) else kv) (table_values h t)
        = table_values h t"
      unfolding tv using Inl by (auto simp: converted_def intro!: map_idI)
    with c wf inv show ?thesis by simp
  next
    case (Inr ys)
    let ?b = "NDArray (length h) [0..<length ys]"
    let ?h = "h @ [ys]"
    let ?t = "t\<lparr>columns := odict_set name ?b (columns t)\<rparr>"
    have al: "alloc ys h = (?b, ?h)" by (simp add: alloc_def)
    have ly: "length ys = length (pos a)"
      using astype_float_length [OF Inr] by (simp add: elems_def)
    have chk: "check_shapes (values_of t) ?b = None"
      using inv table_inv_lengths [OF inv a] ly
      by (auto simp: check_shapes_None table_inv_def)
    have set: "setitem (Single (PyStr name)) (PyArray ?b) (?h, t) = (Inr (), ?h, ?t)"
      using setitem_name_array [OF chk] .
    have c: "convert_column parse name (h, t) = (?h, ?t)"
      by (simp add: convert_column_def get Inr al set)
    have inv': "table_inv ?t"
      using setitem_inv [OF set inv] .
    have k': "keys ?t = keys t"
      using name by (auto simp: keys_def keys_odict_set)
    have wfb: "buf ?b < length ?h \<and> (\<forall>p \<in> set (pos ?b). p < length (?h ! buf ?b))"
      by simp
    have wf': "wf_table ?h ?t"
      unfolding wf_table_def
    proof
      fix c assume "c \<in> set (values_of ?t)"
      then have "c = ?b \<or> c \<in> set (values_of t)"
        using set_odict_set [of name ?b "columns t"] by (auto simp: values_of_def)
      then show "buf c < length ?h \<and> (\<forall>p \<in> set (pos c). p < length (?h ! buf c))"
      proof
        assume "c = ?b"
        with wfb show ?thesis by simp
      next
        assume "c \<in> set (values_of t)"
        with wf_table_append [OF wf, of "[ys]"] show ?thesis
          by (simp add: wf_table_def)
      qed
    qed
    have eb: "elems ?h ?b = ys"
      using elems_alloc [OF al] .
    have old: "\<forall>kv \<in> set (columns t). elems ?h (snd kv) = elems h (snd kv)"
      using wf by (auto simp: wf_table_def values_of_def elems_append)
    have same: "\<forall>kv \<in> set (columns t). fst kv = name \<longrightarrow> snd kv = a"
      using d a by (auto simp: eq_key_imp_eq_value)
    have "table_values ?h ?t
        = map (\<lambda>kv. if fst kv = name then (name, ys) else (fst kv, elems ?h (snd kv))) (columns t)"
      using map_odict_set [OF d a, of "\<lambda>kv. (fst kv, elems ?h (snd kv))" ?b] eb
      by (simp add: table_values_def case_prod_unfold)
    also have "\<dots> = map (\<lambda>kv. if fst kv = name then (name, converted parse (snd kv)) else kv) (table_values h t)"
      unfolding tv using old same Inr by (auto simp: converted_def)
    finally show ?thesis
      using c wf' inv' k' by simp
  qed
qed

lemma fold_convert_columns:
  assumes "wf_table h t" and "table_inv t" and "distinct names" and "set names \<subseteq> set (keys t)"
  shows "\<exists>h' t'. fold (convert_column parse) names (h, t) = (h', t') \<and> wf_table h' t'
           \<and> table_inv t' \<and> keys t' = keys t
           \<and> table_values h' t'
               = map (\<lambda>kv. if fst kv \<in> set names then (fst kv, converted parse (snd kv)) else kv)
                   (table_values h t)"
  using assms
proof (induction names arbitrary: h t)
  case Nil
  then show ?case by simp
next
  case (Cons name names)
  have n: "name \<in> set (keys t)" using Cons.prems(4) by simp
  from convert_column_values [OF Cons.prems(1,2) n, of parse]
  obtain h1 t1 where c: "convert_column parse name (h, t) = (h1, t1)"
    and wf1: "wf_table h1 t1" and inv1: "table_inv t1" and k1: "keys t1 = keys t"
    and v1: "table_values h1 t1
        = map (\<lambda>kv. if fst kv = name then (name, converted parse (snd kv)) else kv) (table_values h t)"
    by blast
  have d: "distinct names" and nn: "name \<notin> set names"
    using Cons.prems(3) by simp_all
  have sub: "set names \<subseteq> set (keys t1)"
    using Cons.prems(4) k1 by simp
  from Cons.IH [OF wf1 inv1 d sub]
  obtain h' t' where f: "fold (convert_column parse) names (h1, t1) = (h', t')"
    and wf': "wf_table h' t'" and inv': "table_inv t'" and k': "keys t' = keys t1"
    and v': "table_values h' t'
        = map (\<lambda>kv. if fst kv \<in> set names then (fst kv, converted parse (snd kv)) else kv)
            (table_values h1 t1)"
    by blast
  have "table_values h' t'
      = map (\<lambda>kv. if fst kv \<in> set (name # names) then (fst kv, converted parse (snd kv)) else kv)
          (table_values h t)"
    unfolding v' v1 using nn by (auto simp: comp_def)
  with c f wf' inv' k' k1 show ?case by simp
qed

lemma astype_float_Text:
  "astype_float parse (map Text texts) =
     (if \<forall>s \<in> set texts. parse s \<noteq> None then Inr (map (\<lambda>s. Number (the (parse s))) texts)
      else Inl ValueError)"
  by (induction texts) (auto split: option.splits)

lemma converted_Text: "converted parse (map Text texts) = convert_fields parse texts"
proof (cases "\<forall>s \<in> set texts. parse s \<noteq> None")
  case True
  then show ?thesis
    by (simp add: converted_def convert_fields_def astype_float_Text)
next
  case False
  then have "astype_float parse (map Text texts) = Inl ValueError"
    by (simp only: astype_float_Text if_False)
  with False show ?thesis
    by (simp only: converted_def convert_fields_def sum.case if_False)
qed

lemma length_zip_rows: "c \<in> set (zip_rows rows) \<Longrightarrow> length c = length rows"
  by (auto simp: zip_rows_def split: list.splits)

lemma keys_table_values: "map fst (table_values h t) = keys t"
  by (simp add: table_values_def keys_def case_prod_unfold comp_def)

lemma parse_digits_examples:
  "parse_digits ''1'' = Some 1" "parse_digits ''2'' = Some 2" "parse_digits ''3'' = Some 3"
  "parse_digits ''4'' = Some 4" "parse_digits ''x'' = None"
  by (simp_all add: parse_digits_def is_digit_def)

section \<open>The names of a constructed Table\<close>

text \<open>
  C1, as amended. For every source, the names stored in the constructed Table are all
  distinct, they are as many as the source's names, and every name that occurs exactly
  once in the source is stored unaltered at its position. When no name that occurs more
  than once is another such name followed by \<^verbatim>\<open>-\<close> and a number, the first occurrence
  of each duplicated name keeps the name and every later occurrence is stored as
  \<^verbatim>\<open>base-n\<close>, where \<open>n\<close> is the least positive integer for which \<^verbatim>\<open>base-n\<close> is not a
  reserved name already. The sequence \<^verbatim>\<open>[("x",[1]),("x",[2])]\<close> gives the columns
  \<^verbatim>\<open>x\<close> and \<^verbatim>\<open>x-1\<close>.
\<close>

theorem Table_names_unique:
  assumes "Table data index h = (Inr t, h')"
  shows "distinct (keys t) \<and> length (keys t) = length (source_names data index)
       \<and> (\<forall>i < length (source_names data index).
             count_list (source_names data index) (source_names data index ! i) = 1
               \<longrightarrow> keys t ! i = source_names data index ! i)
       \<and> (collision_free (source_names data index) \<longrightarrow>
            (\<forall>i < length (source_names data index).
               1 < count_list (source_names data index) (source_names data index ! i)
                 \<longrightarrow> named (source_names data index) (keys t) i))"
  unfolding Table_keys [OF assms]
  by (simp add: distinct_unique_keys length_unique_keys unique_keys_single unique_keys_named)

theorem Table_names_unique_witness:
  "Table (Sequence [(''x'', PySeq [1]), (''x'', PySeq [2 :: int])]) IndexFalse []
     = (Inr \<lparr>columns = [(''x'', NDArray 0 [0]), (''x-1'', NDArray 1 [0])]\<rparr>, [[1], [2]])
   \<and> collision_free [''x'', ''x'']
   \<and> keys \<lparr>columns = [(''x'', NDArray 0 [0]), (''x-1'', NDArray 1 [0])]\<rparr> = [''x'', ''x-1'']
   \<and> distinct (keys \<lparr>columns = [(''x'', NDArray 0 [0]), (''x-1'', NDArray 1 [0])]\<rparr>)
   \<and> named [''x'', ''x''] [''x'', ''x-1''] 1"
proof -
  let ?t = "\<lparr>columns = [(''x'', NDArray 0 [0]), (''x-1'', NDArray 1 [0])]\<rparr>"
  have T: "Table (Sequence [(''x'', PySeq [1]), (''x'', PySeq [2 :: int])]) IndexFalse []
     = (Inr ?t, [[1], [2]])"
    by code_simp
  have cf: "collision_free [''x'', ''x'']"
    by (rule collision_free_single_base [of _ "''x''"]) (simp split: if_splits)
  have k: "keys ?t = [''x'', ''x-1'']"
    by (simp add: keys_def)
  have n: "source_names (Sequence [(''x'', PySeq [1]), (''x'', PySeq [2 :: int])]) IndexFalse = [''x'', ''x'']"
    by (simp add: source_names_def source_columns_def)
  from Table_names_unique [OF T] have d: "distinct (keys ?t)"
    and nm: "collision_free [''x'', ''x''] \<longrightarrow> (\<forall>i < 2. 1 < count_list [''x'', ''x''] ([''x'', ''x''] ! i)
        \<longrightarrow> named [''x'', ''x''] (keys ?t) i)"
    unfolding n by simp_all
  from nm cf have "named [''x'', ''x''] (keys ?t) 1"
    by simp
  with T cf k d show ?thesis by simp
qed

text \<open>
  C1 as it was stated fails when a duplicated name is itself of the form \<^verbatim>\<open>base-n\<close>.
  From the names \<^verbatim>\<open>a\<close>, \<^verbatim>\<open>a\<close>, \<^verbatim>\<open>a-1\<close>, \<^verbatim>\<open>a-1\<close> the second \<^verbatim>\<open>a\<close> is first
  renamed \<^verbatim>\<open>a-1\<close>; when the turn of \<^verbatim>\<open>a-1\<close> comes the name is reserved, so all three
  positions that hold it by then are renamed: the first occurrence of \<^verbatim>\<open>a-1\<close>, at
  position 2, is stored as \<^verbatim>\<open>a-1-2\<close>.
\<close>

theorem Table_names_unique_counterexample:
  "Table (Sequence [(''a'', PySeq [1]), (''a'', PySeq [2]), (''a-1'', PySeq [3]),
                    (''a-1'', PySeq [4 :: int])]) IndexFalse []
     = (Inr \<lparr>columns = [(''a'', NDArray 0 [0]), (''a-1-1'', NDArray 1 [0]),
                         (''a-1-2'', NDArray 2 [0]), (''a-1-3'', NDArray 3 [0])]\<rparr>,
        [[1], [2], [3], [4]])
   \<and> \<not> named [''a'', ''a'', ''a-1'', ''a-1''] [''a'', ''a-1-1'', ''a-1-2'', ''a-1-3''] 2"
proof -
  have "\<not> named [''a'', ''a'', ''a-1'', ''a-1''] [''a'', ''a-1-1'', ''a-1-2'', ''a-1-3''] 2"
    by (simp add: named_def less_Suc_eq numeral_2_eq_2)
  moreover have "Table (Sequence [(''a'', PySeq [1]), (''a'', PySeq [2]), (''a-1'', PySeq [3]),
                    (''a-1'', PySeq [4 :: int])]) IndexFalse []
     = (Inr \<lparr>columns = [(''a'', NDArray 0 [0]), (''a-1-1'', NDArray 1 [0]),
                         (''a-1-2'', NDArray 2 [0]), (''a-1-3'', NDArray 3 [0])]\<rparr>,
        [[1], [2], [3], [4]])"
    by code_simp
  ultimately show ?thesis by simp
qed

section \<open>Reading one row, one element\<close>

text \<open>
  C5, as amended. For every Table that satisfies the invariant, with \<open>r\<close> rows, and every
  integer \<open>i\<close>, \<^verbatim>\<open>table[i]\<close> is \<^verbatim>\<open>table[i:i+1]\<close>. For \<open>0 \<le> i < r\<close> it returns a new
  Table with all the columns, in their order, each holding exactly the element at
  position \<open>i\<close>; for \<open>-r \<le> i < -1\<close>, the element at position \<open>r + i\<close>. So \<^verbatim>\<open>table[0]\<close>
  on a Table of 3 columns and 5 rows is a Table of 1 row and 3 columns. The store is left
  as it was.
\<close>

theorem getitem_int_row:
  assumes "table_inv t"
  shows "getitem (Single (PyInt i)) (h, t)
           = getitem (Single (PySlice (Some i) (Some (i + 1)) None)) (h, t)
       \<and> (0 \<le> i \<and> i < int (fst (shape t)) \<longrightarrow>
            (\<exists>u. getitem (Single (PyInt i)) (h, t) = (Inr (SubTable u), h)
               \<and> keys u = keys t \<and> shape u = (1, snd (shape t))
               \<and> table_values h u = map (\<lambda>(k, xs). (k, [xs ! nat i])) (table_values h t)))
       \<and> (- int (fst (shape t)) \<le> i \<and> i < - 1 \<longrightarrow>
            (\<exists>u. getitem (Single (PyInt i)) (h, t) = (Inr (SubTable u), h)
               \<and> keys u = keys t \<and> shape u = (1, snd (shape t))
               \<and> table_values h u
                   = map (\<lambda>(k, xs). (k, [xs ! nat (i + int (fst (shape t)))])) (table_values h t)))"
proof (intro conjI impI)
  show "getitem (Single (PyInt i)) (h, t)
           = getitem (Single (PySlice (Some i) (Some (i + 1)) None)) (h, t)"
    by (simp add: getitem_def column_request_def)
next
  assume i: "0 \<le> i \<and> i < int (fst (shape t))"
  then have js: "slice_indices (Some i) (Some (i + 1)) None (fst (shape t)) = Inr [nat i]"
    by (simp add: slice_indices_int)
  have ne: "columns t \<noteq> []"
    using i by (auto simp: shape_def)
  have "nat i < fst (shape t)"
    using i by linarith
  then have "table_values h (restrict_rows [nat i] t) = map (\<lambda>(k, xs). (k, [xs ! nat i])) (table_values h t)"
    using table_values_restrict_rows [OF assms, of "[nat i]" h] by simp
  then show "\<exists>u. getitem (Single (PyInt i)) (h, t) = (Inr (SubTable u), h)
               \<and> keys u = keys t \<and> shape u = (1, snd (shape t))
               \<and> table_values h u = map (\<lambda>(k, xs). (k, [xs ! nat i])) (table_values h t)"
    using getitem_int [OF assms js, of h] ne
    by (simp add: keys_restrict_rows shape_restrict_rows shape_snd)
next
  let ?j = "nat (i + int (fst (shape t)))"
  assume i: "- int (fst (shape t)) \<le> i \<and> i < - 1"
  then have js: "slice_indices (Some i) (Some (i + 1)) None (fst (shape t)) = Inr [?j]"
    by (simp add: slice_indices_int)
  have ne: "columns t \<noteq> []"
    using i by (auto simp: shape_def)
  have "?j < fst (shape t)"
    using i by linarith
  then have "table_values h (restrict_rows [?j] t) = map (\<lambda>(k, xs). (k, [xs ! ?j])) (table_values h t)"
    using table_values_restrict_rows [OF assms, of "[?j]" h] by simp
  then show "\<exists>u. getitem (Single (PyInt i)) (h, t) = (Inr (SubTable u), h)
               \<and> keys u = keys t \<and> shape u = (1, snd (shape t))
               \<and> table_values h u = map (\<lambda>(k, xs). (k, [xs ! ?j])) (table_values h t)"
    using getitem_int [OF assms js, of h] ne
    by (simp add: keys_restrict_rows shape_restrict_rows shape_snd)
qed

theorem getitem_int_row_witness:
  "table_inv example_table
   \<and> (\<exists>u. getitem (Single (PyInt 0)) (example_heap, example_table) = (Inr (SubTable u), example_heap)
          \<and> keys u = [''a'', ''b'', ''c''] \<and> shape u = (1, 3)
          \<and> table_values example_heap u = [(''a'', [1]), (''b'', [10]), (''c'', [7])])
   \<and> (\<exists>u. getitem (Single (PyInt (- 2))) (example_heap, example_table) = (Inr (SubTable u), example_heap)
          \<and> keys u = [''a'', ''b'', ''c''] \<and> shape u = (1, 3)
          \<and> table_values example_heap u = [(''a'', [4]), (''b'', [40]), (''c'', [7])])"
proof -
  have k: "keys example_table = [''a'', ''b'', ''c'']"
    by (simp add: example_table_def keys_def)
  have v: "table_values example_heap example_table
      = [(''a'', [1, 2, 3, 4, 5]), (''b'', [10, 20, 30, 40, 50]), (''c'', [7, 7, 7, 7, 7])]"
    by (simp add: table_values_def example_table_def example_heap_def elems_def)
  from getitem_int_row [OF example_table_inv, of 0 example_heap, THEN conjunct2, THEN conjunct1]
    getitem_int_row [OF example_table_inv, of "- 2" example_heap, THEN conjunct2, THEN conjunct2]
  show ?thesis
    using example_table_inv by (simp add: k v example_table_shape)
qed

text \<open>
  C5 as it was stated fails for \<open>i = -1\<close>: on the example of five rows, \<^verbatim>\<open>table[-1]\<close> is a
  Table of no rows, not the row at the last position.
\<close>

theorem getitem_int_row_counterexample:
  "getitem (Single (PyInt (- 1))) (example_heap, example_table)
     = (Inr (SubTable \<lparr>columns = [(''a'', NDArray 0 []), (''b'', NDArray 1 []), (''c'', NDArray 2 [])]\<rparr>),
        example_heap)
   \<and> shape \<lparr>columns = [(''a'', NDArray 0 []), (''b'', NDArray 1 []), (''c'', NDArray 2 [])]\<rparr> = (0, 3)"
proof -
  have js: "slice_indices (Some (- 1)) (Some (- 1 + 1)) None (fst (shape example_table)) = Inr []"
    using slice_indices_int [of "- 1" 5] by (simp add: example_table_shape)
  show ?thesis
    using getitem_int [OF example_table_inv js, of example_heap]
    by (simp add: restrict_rows_def example_table_def view_def shape_def)
qed

text \<open>
  C10. For every Table that satisfies the invariant and has at least one column, with
  \<open>r\<close> rows, \<^verbatim>\<open>table[i]\<close> raises nothing when \<open>i \<ge> r\<close>, when \<open>i = -1\<close> or when
  \<open>i < -r\<close>: it returns a Table with all the columns, under their names and in their
  order, and no rows.
\<close>

theorem getitem_int_out_of_range:
  assumes "table_inv t" and "columns t \<noteq> []"
    and "int (fst (shape t)) \<le> i \<or> i = - 1 \<or> i < - int (fst (shape t))"
  shows "\<exists>u. getitem (Single (PyInt i)) (h, t) = (Inr (SubTable u), h) \<and> keys u = keys t
           \<and> shape u = (0, snd (shape t))
           \<and> table_values h u = map (\<lambda>(k, xs). (k, [])) (table_values h t)"
proof -
  have js: "slice_indices (Some i) (Some (i + 1)) None (fst (shape t)) = Inr []"
    using assms(3) by (auto simp: slice_indices_int)
  have "table_values h (restrict_rows [] t) = map (\<lambda>(k, xs). (k, [])) (table_values h t)"
    using table_values_restrict_rows [OF assms(1), of "[]" h] by simp
  then show ?thesis
    using getitem_int [OF assms(1) js, of h] assms(2)
    by (simp add: keys_restrict_rows shape_restrict_rows shape_snd)
qed

theorem getitem_int_out_of_range_witness:
  "table_inv example_table \<and> columns example_table \<noteq> []
   \<and> (\<exists>u. getitem (Single (PyInt 5)) (example_heap, example_table) = (Inr (SubTable u), example_heap)
          \<and> keys u = [''a'', ''b'', ''c''] \<and> shape u = (0, 3))
   \<and> (\<exists>u. getitem (Single (PyInt (- 1))) (example_heap, example_table) = (Inr (SubTable u), example_heap)
          \<and> keys u = [''a'', ''b'', ''c''] \<and> shape u = (0, 3))"
proof -
  have ne: "columns example_table \<noteq> []"
    by (simp add: example_table_def)
  have k: "keys example_table = [''a'', ''b'', ''c'']"
    by (simp add: example_table_def keys_def)
  have a: "int (fst (shape example_table)) \<le> 5 \<or> (5::int) = - 1
      \<or> 5 < - int (fst (shape example_table))"
    by (simp add: example_table_shape)
  have b: "int (fst (shape example_table)) \<le> - 1 \<or> (- 1::int) = - 1
      \<or> - 1 < - int (fst (shape example_table))"
    by simp
  from getitem_int_out_of_range [OF example_table_inv ne a, of example_heap]
    getitem_int_out_of_range [OF example_table_inv ne b, of example_heap]
  show ?thesis
    using example_table_inv ne by (simp add: k example_table_shape) blast
qed

text \<open>
  C7 fails on the code. \<^verbatim>\<open>table[0, None]\<close>, a tuple whose second element is neither a
  name, nor a list of names, nor a row selector, raises nothing: \<^verbatim>\<open>columns\<close> stays
  \<^verbatim>\<open>None\<close>, the test of line 195 fails and the function runs off its end, returning
  \<^verbatim>\<open>None\<close>.
\<close>

theorem getitem_runs_off_its_end:
  "getitem (PyTuple [PyInt 0, PyNone]) (h, t) = (Inr ReturnedNone, h)"
  by (simp add: getitem_def column_request_def tuple_item_def select_table_def)

text \<open>
  C6, as amended. For every Table with a column \<open>name\<close> and every integer \<open>p\<close>,
  \<^verbatim>\<open>table[name, p]\<close> returns the slice \<open>[p, p + 1)\<close> of that column, a view of it;
  for \<open>0 \<le> p < r\<close>, where \<open>r\<close> is the length of the column, it is the one-element slice
  holding the column's element at position \<open>p\<close>, and for \<open>-r \<le> p < -1\<close> the one holding
  the element at position \<open>r + p\<close>. So \<^verbatim>\<open>table["a", 2]\<close> is the one-element slice of
  column \<open>a\<close> at row 2.
\<close>

theorem getitem_name_position:
  assumes "map_of (columns t) name = Some a"
  shows "\<exists>js. slice_indices (Some p) (Some (p + 1)) None (length (pos a)) = Inr js
           \<and> getitem (PyTuple [PyStr name, PyInt p]) (h, t) = (Inr (Value (PyArray (view a js))), h)
           \<and> (0 \<le> p \<and> p < int (length (pos a)) \<longrightarrow>
                js = [nat p] \<and> elems h (view a js) = [elems h a ! nat p])
           \<and> (- int (length (pos a)) \<le> p \<and> p < - 1 \<longrightarrow>
                js = [nat (p + int (length (pos a)))]
                \<and> elems h (view a js) = [elems h a ! nat (p + int (length (pos a)))])"
proof -
  let ?n = "length (pos a)"
  obtain js where js: "slice_indices (Some p) (Some (p + 1)) None ?n = Inr js"
    by (simp add: slice_indices_int)
  have get: "getitem (PyTuple [PyStr name, PyInt p]) (h, t) = (Inr (Value (PyArray (view a js))), h)"
    using assms js by (simp add: getitem_def column_request_def tuple_item_def odict_get_def np_getitem_def)
  have in1: "0 \<le> p \<and> p < int ?n \<longrightarrow> js = [nat p] \<and> elems h (view a js) = [elems h a ! nat p]"
    using js by (auto simp: slice_indices_int elems_view)
  have in2: "- int ?n \<le> p \<and> p < - 1 \<longrightarrow> js = [nat (p + int ?n)]
       \<and> elems h (view a js) = [elems h a ! nat (p + int ?n)]"
    using js by (auto simp: slice_indices_int elems_view)
  from js get in1 in2 show ?thesis by blast
qed

theorem getitem_name_position_witness:
  "map_of (columns example_table) ''a'' = Some (NDArray 0 [0, 1, 2, 3, 4])
   \<and> getitem (PyTuple [PyStr ''a'', PyInt 2]) (example_heap, example_table)
       = (Inr (Value (PyArray (NDArray 0 [2]))), example_heap)
   \<and> elems example_heap (NDArray 0 [2]) = [3]"
proof -
  have m: "map_of (columns example_table) ''a'' = Some (NDArray 0 [0, 1, 2, 3, 4])"
    by (simp add: example_table_def)
  from getitem_name_position [OF m, of 2 example_heap]
  obtain js where js: "getitem (PyTuple [PyStr ''a'', PyInt 2]) (example_heap, example_table)
       = (Inr (Value (PyArray (view (NDArray 0 [0, 1, 2, 3, 4]) js))), example_heap)"
      "js = [nat 2]"
      "elems example_heap (view (NDArray 0 [0, 1, 2, 3, 4]) js) = [elems example_heap (NDArray 0 [0, 1, 2, 3, 4]) ! nat 2]"
    by auto
  have v: "view (NDArray 0 [0, 1, 2, 3, 4]) [2] = NDArray 0 [2]"
    by (simp add: view_def)
  have e: "elems example_heap (NDArray 0 [2]) = [3]"
    by (simp add: elems_def example_heap_def)
  from js(1) m show ?thesis
    unfolding js(2) by (simp add: view_def e)
qed

text \<open>
  C6 as it was stated fails for \<open>p = -1\<close>: on the example, \<^verbatim>\<open>table["a", -1]\<close> is a slice
  of no elements.
\<close>

theorem getitem_name_position_counterexample:
  "getitem (PyTuple [PyStr ''a'', PyInt (- 1)]) (example_heap, example_table)
       = (Inr (Value (PyArray (NDArray 0 []))), example_heap)
   \<and> elems example_heap (NDArray 0 []) = []"
  by (simp add: getitem_def column_request_def tuple_item_def odict_get_def np_getitem_def
      example_table_def slice_indices_def py_range_def view_def elems_def)

text \<open>
  C4, as amended. For every Table with distinct names, a sub-Table returned by a read
  that asks for all the columns (an integer, a slice, a list of positions) has exactly
  the names of the Table, in their order; a sub-Table returned by a read that names its
  columns has the names asked for as the constructor makes them unique, which are
  exactly the names asked for, in the order given, when those are distinct. So
  \<^verbatim>\<open>table[2:5].keys() == table.keys()\<close> and \<^verbatim>\<open>table[:, ["b","a"]].keys() == ["b","a"]\<close>.
\<close>

theorem getitem_keys:
  assumes "distinct (keys t)" and "getitem index (h, t) = (Inr (SubTable u), h')"
  shows "(all_columns index \<longrightarrow> keys u = keys t)
       \<and> (\<forall>names. explicit_columns index = Some names \<longrightarrow>
            keys u = unique_keys names \<and> (distinct names \<longrightarrow> keys u = names))"
  using getitem_all_columns [OF assms(2)] getitem_explicit_columns [OF assms(2)] assms(1)
  by (auto simp: unique_keys_distinct)

theorem getitem_keys_witness:
  "distinct (keys example_table)
   \<and> getitem (Single (PySlice (Some 2) (Some 5) None)) (example_heap, example_table)
       = (Inr (SubTable \<lparr>columns = [(''a'', NDArray 0 [2, 3, 4]), (''b'', NDArray 1 [2, 3, 4]),
                                    (''c'', NDArray 2 [2, 3, 4])]\<rparr>), example_heap)
   \<and> keys \<lparr>columns = [(''a'', NDArray 0 [2, 3, 4]), (''b'', NDArray 1 [2, 3, 4]),
                       (''c'', NDArray 2 [2, 3, 4])]\<rparr> = keys example_table
   \<and> getitem (PyTuple [PySlice None None None, PyStrList [''b'', ''a'']]) (example_heap, example_table)
       = (Inr (SubTable \<lparr>columns = [(''b'', NDArray 1 [0, 1, 2, 3, 4]),
                                    (''a'', NDArray 0 [0, 1, 2, 3, 4])]\<rparr>), example_heap)
   \<and> keys \<lparr>columns = [(''b'', NDArray 1 [0, 1, 2, 3, 4]), (''a'', NDArray 0 [0, 1, 2, 3, 4])]\<rparr>
       = [''b'', ''a'']"
proof -
  let ?u = "\<lparr>columns = [(''a'', NDArray 0 [2, 3, 4]), (''b'', NDArray 1 [2, 3, 4]),
                       (''c'', NDArray 2 [2, 3, 4])]\<rparr>"
  let ?v = "\<lparr>columns = [(''b'', NDArray 1 [0, 1, 2, 3, 4]), (''a'', NDArray 0 [0, 1, 2, 3, 4])]\<rparr>"
  have d: "distinct (keys example_table)"
    using example_table_inv by (simp add: table_inv_def)
  have g1: "getitem (Single (PySlice (Some 2) (Some 5) None)) (example_heap, example_table)
       = (Inr (SubTable ?u), example_heap)"
    by code_simp
  have g2: "getitem (PyTuple [PySlice None None None, PyStrList [''b'', ''a'']]) (example_heap, example_table)
       = (Inr (SubTable ?v), example_heap)"
    by code_simp
  have a: "all_columns (Single (PySlice (Some 2) (Some 5) None))"
    by (simp add: all_columns_def)
  have e: "explicit_columns (PyTuple [PySlice None None None, PyStrList [''b'', ''a'']]) = Some [''b'', ''a'']"
    by (simp add: explicit_columns_def)
  from getitem_keys [OF d g1] a have k1: "keys ?u = keys example_table" by blast
  have dn: "distinct [''b'', ''a'']" by simp
  from getitem_keys [OF d g2] e dn have k2: "keys ?v = [''b'', ''a'']" by blast
  from d g1 g2 k1 k2 show ?thesis by simp
qed

text \<open>
  C4 as it was stated fails when a name is asked for twice: the new Table is made by the
  constructor, which alters duplicates, and \<^verbatim>\<open>table[:, ["a","a"]]\<close> has the columns
  \<^verbatim>\<open>a\<close> and \<^verbatim>\<open>a-1\<close>.
\<close>

theorem getitem_keys_counterexample:
  "getitem (PyTuple [PySlice None None None, PyStrList [''a'', ''a'']]) (example_heap, example_table)
     = (Inr (SubTable \<lparr>columns = [(''a'', NDArray 0 [0, 1, 2, 3, 4]),
                                  (''a-1'', NDArray 0 [0, 1, 2, 3, 4])]\<rparr>), example_heap)
   \<and> keys \<lparr>columns = [(''a'', NDArray 0 [0, 1, 2, 3, 4]), (''a-1'', NDArray 0 [0, 1, 2, 3, 4])]\<rparr>
       = [''a'', ''a-1'']"
proof -
  have "getitem (PyTuple [PySlice None None None, PyStrList [''a'', ''a'']]) (example_heap, example_table)
     = (Inr (SubTable \<lparr>columns = [(''a'', NDArray 0 [0, 1, 2, 3, 4]),
                                  (''a-1'', NDArray 0 [0, 1, 2, 3, 4])]\<rparr>), example_heap)"
    by code_simp
  then show ?thesis by (simp add: keys_def)
qed

section \<open>Assignment keeps the columns at one length\<close>

text \<open>
  C2. In every reachable Table all the stored columns have the same length, and
  \<^verbatim>\<open>shape\<close> is \<open>(0, 0)\<close> for a Table of no columns and otherwise the length of any
  column with the number of columns.
\<close>

theorem reachable_columns_one_length:
  assumes "reachable (h, t)"
  shows "(\<forall>a \<in> set (values_of t). \<forall>b \<in> set (values_of t). length (pos a) = length (pos b))
       \<and> (columns t = [] \<longrightarrow> shape t = (0, 0))
       \<and> (\<forall>a \<in> set (values_of t). shape t = (length (pos a), length (columns t)))"
proof -
  from reachable_inv [OF assms] have "table_inv t" by simp
  then show ?thesis
    by (auto simp: table_inv_def shape_def split: list.splits)
qed

theorem reachable_columns_one_length_witness:
  "reachable (example_heap, example_table) \<and> shape example_table = (5, 3)
   \<and> reachable ([] :: int heap, empty_table) \<and> shape empty_table = (0, 0)"
proof -
  have r: "reachable (example_heap, example_table)"
    using example_table_constructed by (rule reachable.constructed)
  have "Table (NoData :: int source) IndexFalse [] = (Inr empty_table, [])"
    by (simp add: Table_def)
  then have r0: "reachable ([] :: int heap, empty_table)"
    by (rule reachable.constructed)
  have a: "NDArray 0 [0, 1, 2, 3, 4] \<in> set (values_of example_table)"
    by (simp add: example_table_def values_of_def)
  have e: "columns empty_table = []"
    by (simp add: empty_table_def)
  from reachable_columns_one_length [OF r] a
  have "shape example_table = (length (pos (NDArray 0 [0, 1, 2, 3, 4])), length (columns example_table))"
    by blast
  then have s: "shape example_table = (5, 3)"
    by (simp add: example_table_def)
  from reachable_columns_one_length [OF r0] e have "shape empty_table = (0, 0)"
    by blast
  with r r0 s show ?thesis by simp
qed

text \<open>
  C3. For every Table that satisfies the invariant and holds at least one column,
  \<^verbatim>\<open>table[name] = values\<close> with a one-dimensional value whose length differs from the
  number of rows raises the error that carries the number of rows expected and the length
  received, and leaves the Table as it was: the same names in the same order, referring to
  the same values.
\<close>

theorem setitem_length_mismatch:
  assumes "table_inv t" and "columns t \<noteq> []" and "wf_table h t"
    and "ndim value = 1" and "value_length value \<noteq> fst (shape t)"
  shows "\<exists>h'. setitem (Single (PyStr name)) value (h, t)
             = (Inl (LengthMismatchError (fst (shape t)) (value_length value)), h', t)
           \<and> table_values h' t = table_values h t"
proof -
  obtain arr h' where ma: "ma_array value h = (arr, h')"
    by (cases "ma_array value h") auto
  have len: "length (pos arr) = value_length value"
    using ma_array_length [OF assms(4) ma] .
  obtain k c rest where cols: "columns t = (k, c) # rest"
    using assms(2) by (cases "columns t") auto
  then have c: "length (pos c) = fst (shape t)"
    by (simp add: shape_def)
  have "check_shapes (values_of t) arr
      = Some (LengthMismatchError (fst (shape t)) (value_length value))"
    using assms(5) c len by (simp add: values_of_def cols)
  then have set: "setitem (Single (PyStr name)) value (h, t)
      = (Inl (LengthMismatchError (fst (shape t)) (value_length value)), h', t)"
    using ma assms(4) by (simp add: setitem_def)
  obtain h2 where "h' = h @ h2"
    using ma_array_extends [OF ma] by blast
  then have "table_values h' t = table_values h t"
    using table_values_append [OF assms(3)] by simp
  with set show ?thesis by blast
qed

theorem setitem_length_mismatch_witness:
  "table_inv example_table \<and> columns example_table \<noteq> [] \<and> wf_table example_heap example_table
   \<and> ndim (PySeq [1, 2 :: int]) = 1 \<and> value_length (PySeq [1, 2 :: int]) \<noteq> fst (shape example_table)
   \<and> (\<exists>h'. setitem (Single (PyStr ''d'')) (PySeq [1, 2]) (example_heap, example_table)
             = (Inl (LengthMismatchError 5 2), h', example_table)
           \<and> table_values h' example_table = table_values example_heap example_table)"
proof -
  have ne: "columns example_table \<noteq> []"
    by (simp add: example_table_def)
  have nd: "ndim (PySeq [1, 2 :: int]) = 1"
    by (simp add: ndim_def)
  have vl: "value_length (PySeq [1, 2 :: int]) = 2"
    by (simp add: value_length_def)
  have ln: "value_length (PySeq [1, 2 :: int]) \<noteq> fst (shape example_table)"
    by (simp add: vl example_table_shape)
  from setitem_length_mismatch [OF example_table_inv ne example_table_wf nd ln, of "''d''"]
  show ?thesis
    using example_table_inv ne example_table_wf nd ln by (simp add: vl example_table_shape)
qed

section \<open>Sub-Tables and the storage of their parent\<close>




section \<open>Loading with conversion\<close>

text \<open>
  C9. For all rows of text, whatever the conversion of a field and whatever the store,
  loading with conversion on succeeds, and the Table it returns has, under the names of
  the first row made unique, one column for each column of the text: numbers when every
  field of that column can be read as a number, and the text as it was when any field
  cannot, whatever the other columns hold. Nothing is raised. The text
  \<^verbatim>\<open>"a,b\n1,2\n3,4\n"\<close> gives the columns \<open>a = [1, 3]\<close> and \<open>b = [2, 4]\<close> of numbers.
\<close>

theorem read_csv_converts_columns:
  "\<exists>t h'. read_csv parse rows True h = (Inr t, h')
      \<and> table_values h' t
          = zip (unique_keys (map hd (zip_rows rows)))
              (map (\<lambda>column. convert_fields parse (tl column)) (zip_rows rows))"
proof -
  let ?cols = "zip_rows rows"
  let ?names = "map hd ?cols"
  let ?items = "map (\<lambda>column. (hd column, PySeq (map Text (tl column)))) ?cols"
  let ?kvs = "zip (unique_keys ?names) (map (\<lambda>column. map Text (tl column)) ?cols)"
  have f: "map fst ?items = ?names" by (simp add: comp_def)
  have z: "zip (unique_keys ?names) (map snd ?items) = map (\<lambda>(k, vs). (k, PySeq vs)) ?kvs"
    by (simp add: zip_map2 comp_def case_prod_unfold)
  have tab: "Table (Sequence ?items) IndexFalse h
      = store_columns (map (\<lambda>(k, vs). (k, PySeq vs)) ?kvs) (h, empty_table)"
    unfolding Table_def source_columns_def by (simp only: source.case sum.case f z)
  have kf: "map fst ?kvs = unique_keys ?names"
    by (simp add: length_unique_keys)
  have wf0: "wf_table h empty_table"
    by (simp add: wf_table_def empty_table_def values_of_def)
  have d0: "distinct (keys empty_table @ map fst ?kvs)"
    by (simp add: kf distinct_unique_keys empty_table_def keys_def)
  have l0: "\<forall>vs \<in> snd ` set ?kvs. length vs = length rows - 1"
  proof
    fix vs assume "vs \<in> snd ` set ?kvs"
    then have "vs \<in> set (map (\<lambda>column. map Text (tl column)) ?cols)"
      by (auto dest: set_zip_rightD)
    then show "length vs = length rows - 1"
      by (auto simp: length_zip_rows)
  qed
  have s0: "columns empty_table \<noteq> [] \<longrightarrow> fst (shape empty_table) = length rows - 1"
    by (simp add: empty_table_def)
  from store_columns_seqs [OF wf0 table_inv_empty d0 l0 s0]
  obtain t0 h0 where run: "store_columns (map (\<lambda>(k, vs). (k, PySeq vs)) ?kvs) (h, empty_table) = (Inr t0, h0)"
    and wf: "wf_table h0 t0" and inv: "table_inv t0"
    and v0: "table_values h0 t0 = ?kvs"
    by (auto simp: table_values_def empty_table_def)
  have d: "distinct (keys t0)"
    using inv by (simp add: table_inv_def)
  from fold_convert_columns [OF wf inv d subset_refl, of parse]
  obtain h' t' where fold: "fold (convert_column parse) (keys t0) (h0, t0) = (h', t')"
    and v': "table_values h' t'
        = map (\<lambda>kv. if fst kv \<in> set (keys t0) then (fst kv, converted parse (snd kv)) else kv)
            (table_values h0 t0)"
    by blast
  have "table_values h' t' = map (\<lambda>kv. (fst kv, converted parse (snd kv))) (table_values h0 t0)"
  proof -
    have "\<forall>kv \<in> set (table_values h0 t0). fst kv \<in> set (keys t0)"
      unfolding keys_table_values [of h0 t0, symmetric] by simp
    then show ?thesis
      unfolding v' by (intro map_cong) auto
  qed
  also have "\<dots> = zip (unique_keys ?names) (map (\<lambda>column. convert_fields parse (tl column)) ?cols)"
    unfolding v0 by (simp add: zip_map2 comp_def case_prod_unfold converted_Text zip_map_fst_snd)
  finally have vals: "table_values h' t'
      = zip (unique_keys ?names) (map (\<lambda>column. convert_fields parse (tl column)) ?cols)" .
  have "read_csv parse rows True h = (Inr t', h')"
    by (simp add: read_csv_def tab run fold)
  with vals show ?thesis by blast
qed

theorem read_csv_converts_columns_witness:
  "(\<exists>t h'. read_csv parse_digits [[''a'', ''b''], [''1'', ''2''], [''3'', ''4'']] True [] = (Inr t, h')
       \<and> table_values h' t = [(''a'', [Number 1, Number 3]), (''b'', [Number 2, Number 4])])
   \<and> (\<exists>t h'. read_csv parse_digits [[''a'', ''b''], [''1'', ''x''], [''3'', ''4'']] True [] = (Inr t, h')
       \<and> table_values h' t = [(''a'', [Number 1, Number 3]), (''b'', [Text ''x'', Text ''4''])])"
proof -
  have u: "unique_keys [''a'', ''b''] = [''a'', ''b'']"
    by (rule unique_keys_distinct) simp
  have z1: "zip_rows [[''a'', ''b''], [''1'', ''2''], [''3'', ''4'']]
      = [[''a'', ''1'', ''3''], [''b'', ''2'', ''4'']]"
    by (simp add: zip_rows_def upt_rec)
  have z2: "zip_rows [[''a'', ''b''], [''1'', ''x''], [''3'', ''4'']]
      = [[''a'', ''1'', ''3''], [''b'', ''x'', ''4'']]"
    by (simp add: zip_rows_def upt_rec)
  from read_csv_converts_columns [of parse_digits "[[''a'', ''b''], [''1'', ''2''], [''3'', ''4'']]" "[]"]
  have 1: "\<exists>t h'. read_csv parse_digits [[''a'', ''b''], [''1'', ''2''], [''3'', ''4'']] True [] = (Inr t, h')
       \<and> table_values h' t = [(''a'', [Number 1, Number 3]), (''b'', [Number 2, Number 4])]"
    unfolding z1 by (simp add: u convert_fields_def parse_digits_examples)
  from read_csv_converts_columns [of parse_digits "[[''a'', ''b''], [''1'', ''x''], [''3'', ''4'']]" "[]"]
  have 2: "\<exists>t h'. read_csv parse_digits [[''a'', ''b''], [''1'', ''x''], [''3'', ''4'']] True [] = (Inr t, h')
       \<and> table_values h' t = [(''a'', [Number 1, Number 3]), (''b'', [Text ''x'', Text ''4''])]"
    unfolding z2 by (simp add: u convert_fields_def parse_digits_examples)
  from 1 2 show ?thesis by blast
qed

end
